theory Spec2Isabelle
  imports Main
begin

unbundle bit_operations_syntax

section \<open>The Go board of Goban.py\<close>

text \<open>
  The class \<open>Board\<close> of \<open>src/Goban.py\<close> is embedded function by function.
  Cells ("flat" coordinates), colours and the entries of the numpy arrays are Python and
  numpy integers and are modelled as \<open>int\<close>. The Zobrist values are \<open>int64\<close>; the only
  operation on them is XOR, which cannot overflow, so they are modelled as \<open>int\<close> too.
  Every numpy array of the class has a fixed shape (81 cells, and 81 x 2 for the Zobrist
  table); it is modelled as a function on indices of which only the positions
  \<open>0..80\<close> are read on the boards the class builds. An index that a caller supplies is
  normalised the way numpy does (\<open>np_index\<close>), so that an out-of-range move raises.
  The liberty and size arrays are \<open>int8\<close> in the source and unbounded here.
\<close>

subsection \<open>Results and errors\<close>

datatype error = IndexError | KeyError | AssertionError | NonTermination

type_synonym hash = int

abbreviation (input) BLACK :: int where "BLACK \<equiv> 1"
abbreviation (input) WHITE :: int where "WHITE \<equiv> 2"
abbreviation (input) EMPTY :: int where "EMPTY \<equiv> 0"
abbreviation (input) BOARDSIZE :: int where "BOARDSIZE \<equiv> 9"

definition np_index :: "int \<Rightarrow> int option" where
  "np_index i =
     (if 0 \<le> i \<and> i < BOARDSIZE * BOARDSIZE then Some i
      else if - (BOARDSIZE * BOARDSIZE) \<le> i \<and> i < 0 then Some (i + BOARDSIZE * BOARDSIZE)
      else None)"

subsection \<open>Coordinates and move names\<close>

definition flatten :: "int \<times> int \<Rightarrow> int" where
  "flatten coord = (if coord = (-1, -1) then -1 else BOARDSIZE * snd coord + fst coord)"

definition unflatten :: "int \<Rightarrow> int \<times> int" where
  "unflatten fcoord = (if fcoord = -1 then (-1, -1) else (fcoord mod BOARDSIZE, fcoord div BOARDSIZE))"

definition isOnBoard :: "int \<Rightarrow> int \<Rightarrow> bool" where
  "isOnBoard x y = (x \<ge> 0 \<and> x < BOARDSIZE \<and> y \<ge> 0 \<and> y < BOARDSIZE)"

definition get_neighbors :: "int \<Rightarrow> int list" where
  "get_neighbors fcoord =
     (let (x, y) = unflatten fcoord;
          neighbors = [(x + 1, y), (x - 1, y), (x, y + 1), (x, y - 1)]
      in map flatten (filter (\<lambda>c. isOnBoard (fst c) (snd c)) neighbors))"

lemma flatten_onboard: "isOnBoard x y \<Longrightarrow> 0 \<le> flatten (x, y) \<and> flatten (x, y) < 81"
  by (auto simp: flatten_def isOnBoard_def)

lemma get_neighbors_range: "n \<in> set (get_neighbors c) \<Longrightarrow> 0 \<le> n \<and> n < 81"
proof -
  assume "n \<in> set (get_neighbors c)"
  then obtain x y where "isOnBoard x y" "n = flatten (x, y)"
    by (auto simp: get_neighbors_def Let_def simp del: filter.simps split: prod.splits)
  then show ?thesis using flatten_onboard by simp
qed

fun str_nat :: "nat \<Rightarrow> string" where
  "str_nat n = (if n < 10 then [char_of (48 + n)] else str_nat (n div 10) @ [char_of (48 + n mod 10)])"

declare str_nat.simps [simp del]

definition str_int :: "int \<Rightarrow> string" where
  "str_int i = (if i < 0 then CHR ''-'' # str_nat (nat (- i)) else str_nat (nat i))"

definition coord_to_name :: "int \<times> int \<Rightarrow> string" where
  "coord_to_name coord =
     (if coord = (-1, -1) then ''PASS''
      else [''ABCDEFGHJ'' ! nat (fst coord)] @ str_int (snd coord + 1))"

definition flat_to_name :: "int \<Rightarrow> string" where
  "flat_to_name fcoord = (if fcoord = -1 then ''PASS'' else coord_to_name (unflatten fcoord))"

definition flip :: "int \<Rightarrow> int" where
  "flip player = (if player = BLACK then WHITE else BLACK)"


subsection \<open>The board\<close>

text \<open>
  \<open>Status\<close> is the list \<open>currentStatus\<close> that \<open>_pushBoard\<close> appends to the trail: the
  thirteen saved attributes, in the order in which they are saved. The arrays and the set
  are saved as copies, which a value of HOL is.
\<close>

record Status =
  saved_nbWHITE :: int
  saved_nbBLACK :: int
  saved_capturedWHITE :: int
  saved_capturedBLACK :: int
  saved_nextPlayer :: int
  saved_board :: "int \<Rightarrow> int"
  saved_gameOver :: bool
  saved_lastPlayerHasPassed :: bool
  saved_stringUnionFind :: "int \<Rightarrow> int"
  saved_stringLiberties :: "int \<Rightarrow> int"
  saved_stringSizes :: "int \<Rightarrow> int"
  saved_empties :: "int set"
  saved_currentHash :: hash

record Board =
  nbWHITE :: int
  nbBLACK :: int
  capturedWHITE :: int
  capturedBLACK :: int
  nextPlayer :: int
  board :: "int \<Rightarrow> int"
  lastPlayerHasPassed :: bool
  gameOver :: bool
  stringUnionFind :: "int \<Rightarrow> int"
  stringLiberties :: "int \<Rightarrow> int"
  stringSizes :: "int \<Rightarrow> int"
  empties :: "int set"
  positionHashes :: "int \<Rightarrow> int \<Rightarrow> hash"
  currentHash :: hash
  passHashB :: hash
  passHashW :: hash
  seenHashes :: "hash set"
  historyMoveNames :: "string list"
  trailMoves :: "Status list"

text \<open>
  An exception leaves the object as the statements before it have changed it, and the
  caller that catches it holds that object. A raised exception is therefore the pair of
  the error and of the board at the moment of the \<open>raise\<close> (for a loop that does not
  return, \<open>NonTermination\<close>, the board on which the loop was entered).
\<close>

type_synonym raised = "error \<times> Board"

text \<open>
  An array that has been written to is kept as the chain of its writes, and a read goes
  down the chain; this is the equation by which concrete games are evaluated.
\<close>

lemma fun_upd_read [code]: "(f(a := b)) x = (if x = a then b else f x)"
  by simp

text \<open>
  The constructor. The Zobrist values are drawn at random by \<open>getProperRandom\<close>; they
  are the parameters of the model.
\<close>

definition init_board :: "(int \<Rightarrow> int \<Rightarrow> hash) \<Rightarrow> hash \<Rightarrow> hash \<Rightarrow> hash \<Rightarrow> Board" where
  "init_board ph h0 pB pW =
     \<lparr> nbWHITE = 0, nbBLACK = 0, capturedWHITE = 0, capturedBLACK = 0,
       nextPlayer = BLACK, board = (\<lambda>_. 0),
       lastPlayerHasPassed = False, gameOver = False,
       stringUnionFind = (\<lambda>_. -1), stringLiberties = (\<lambda>_. -1), stringSizes = (\<lambda>_. -1),
       empties = {0 ..< BOARDSIZE * BOARDSIZE},
       positionHashes = ph, currentHash = h0, passHashB = pB, passHashW = pW,
       seenHashes = {}, historyMoveNames = [], trailMoves = [] \<rparr>"

definition getPositionHash :: "Board \<Rightarrow> int \<Rightarrow> int \<Rightarrow> hash" where
  "getPositionHash b fcoord color = positionHashes b fcoord (color - 1)"

subsection \<open>The union-find of strings\<close>

text \<open>
  \<open>_getStringOfStone\<close> follows the parent entries up to an entry \<open>-1\<close>, collecting the
  cells it steps to in \<open>successives\<close>, and then reroutes all of them but the last to the
  root. The loop does not return on a cyclic parent array: it is a partial function, and
  \<open>None\<close> is the run that never returns.
\<close>

partial_function (option) find_loop :: "(int \<Rightarrow> int) \<Rightarrow> int \<Rightarrow> int list \<Rightarrow> (int \<times> int list) option" where
  "find_loop uf fcoord successives =
     (if uf fcoord \<noteq> -1 then find_loop uf (uf fcoord) (successives @ [uf fcoord])
      else Some (fcoord, successives))"

declare find_loop.simps [code]

definition reroute :: "int list \<Rightarrow> int \<Rightarrow> (int \<Rightarrow> int) \<Rightarrow> (int \<Rightarrow> int)" where
  "reroute fcs root uf = fold (\<lambda>fc u. u(fc := root)) fcs uf"

definition getStringOfStone :: "Board \<Rightarrow> int \<Rightarrow> raised + (Board \<times> int)" where
  "getStringOfStone b fcoord =
     (case find_loop (stringUnionFind b) fcoord [] of
        None \<Rightarrow> Inl (NonTermination, b)
      | Some (root, successives) \<Rightarrow>
          Inr (if length successives > 1
               then b\<lparr>stringUnionFind := reroute (butlast successives) root (stringUnionFind b)\<rparr>
               else b, root))"

definition merge_strings :: "Board \<Rightarrow> int \<Rightarrow> int \<Rightarrow> raised + Board" where
  "merge_strings b str1 str2 =
     (let libs1 = (stringLiberties b)(str1 := stringLiberties b str1 + stringLiberties b str2);
          libs2 = libs1(str2 := -1);
          sizes1 = (stringSizes b)(str1 := stringSizes b str1 + stringSizes b str2);
          sizes2 = sizes1(str2 := -1)
      in if stringUnionFind b str2 \<noteq> -1
         then Inl (AssertionError, b\<lparr>stringLiberties := libs2, stringSizes := sizes2\<rparr>)
         else Inr (b\<lparr>stringLiberties := libs2, stringSizes := sizes2,
                     stringUnionFind := (stringUnionFind b)(str2 := str1)\<rparr>))"

subsection \<open>Placing a stone\<close>

text \<open>
  The loops \<open>while self._neighbors[i] != -1\<close> run over the segment of the flat neighbour
  table that the constructor filled from \<open>_get_neighbors\<close> for the cell; the model runs
  over that list.
\<close>

fun count_neighbors :: "Board \<Rightarrow> int \<Rightarrow> int list \<Rightarrow> int \<times> int \<Rightarrow> int \<times> int" where
  "count_neighbors b color [] (nbEmpty, nbSameColor) = (nbEmpty, nbSameColor)"
| "count_neighbors b color (fn # fns) (nbEmpty, nbSameColor) =
     (let n = board b fn in
      if n = EMPTY then count_neighbors b color fns (nbEmpty + 1, nbSameColor)
      else if n = color then count_neighbors b color fns (nbEmpty, nbSameColor + 1)
      else count_neighbors b color fns (nbEmpty, nbSameColor))"

fun put_stone_loop :: "Board \<Rightarrow> int \<Rightarrow> int list \<Rightarrow> int \<Rightarrow> int list \<Rightarrow> raised + (Board \<times> int list)" where
  "put_stone_loop b color [] currentString stringWithNoLiberties = Inr (b, stringWithNoLiberties)"
| "put_stone_loop b color (fn # fns) currentString stringWithNoLiberties =
     (if board b fn = color then
        (case getStringOfStone b fn of
           Inl e \<Rightarrow> Inl e
         | Inr (b1, stringNumber) \<Rightarrow>
             let b2 = b1\<lparr>stringLiberties := (stringLiberties b1)(stringNumber := stringLiberties b1 stringNumber - 1)\<rparr>
             in if currentString \<noteq> stringNumber then
                  (case merge_strings b2 stringNumber currentString of
                     Inl e \<Rightarrow> Inl e
                   | Inr b3 \<Rightarrow> put_stone_loop b3 color fns stringNumber stringWithNoLiberties)
                else put_stone_loop b2 color fns stringNumber stringWithNoLiberties)
      else if board b fn \<noteq> EMPTY then
        (case getStringOfStone b fn of
           Inl e \<Rightarrow> Inl e
         | Inr (b1, stringNumber) \<Rightarrow>
             let b2 = b1\<lparr>stringLiberties := (stringLiberties b1)(stringNumber := stringLiberties b1 stringNumber - 1)\<rparr>
             in put_stone_loop b2 color fns currentString
                  (if stringLiberties b2 stringNumber = 0 \<and> stringNumber \<notin> set stringWithNoLiberties
                   then stringWithNoLiberties @ [stringNumber] else stringWithNoLiberties))
      else put_stone_loop b color fns currentString stringWithNoLiberties)"

definition put_stone :: "Board \<Rightarrow> int \<Rightarrow> int \<Rightarrow> raised + (Board \<times> int list)" where
  "put_stone b fcoord color =
     (case np_index fcoord of
        None \<Rightarrow> Inl (IndexError, b)
      | Some c \<Rightarrow>
          let b1 = b\<lparr>board := (board b)(c := color),
                     currentHash := currentHash b XOR getPositionHash b c color\<rparr>
          in if fcoord \<notin> empties b1 then Inl (KeyError, b1)
             else
               let b2 = b1\<lparr>empties := empties b1 - {fcoord}\<rparr>;
                   (nbEmpty, nbSameColor) = count_neighbors b2 color (get_neighbors fcoord) (0, 0);
                   b3 = b2\<lparr>stringLiberties := (stringLiberties b2)(fcoord := nbEmpty),
                            stringSizes := (stringSizes b2)(fcoord := 1)\<rparr>
               in put_stone_loop b3 color (get_neighbors fcoord) fcoord [])"


subsection \<open>The suicide check\<close>

text \<open>
  The dictionaries \<open>libertiesFriends\<close> and \<open>libertiesOpponents\<close> are association lists
  in insertion order, the order in which Python iterates a \<open>dict\<close>. \<open>survey\<close> is the
  update both checks make for a neighbouring string: a new key starts at the string's
  liberties minus one, a known key loses one more.
\<close>

type_synonym dict = "(int \<times> int) list"

definition survey :: "dict \<Rightarrow> int \<Rightarrow> int \<Rightarrow> dict" where
  "survey d string libs =
     (if string \<notin> fst ` set d then d @ [(string, libs - 1)]
      else map (\<lambda>(k, v). if k = string then (k, v - 1) else (k, v)) d)"

fun is_suicide_loop :: "Board \<Rightarrow> int \<Rightarrow> int list \<Rightarrow> dict \<Rightarrow> dict \<Rightarrow> raised + (Board \<times> (dict \<times> dict) option)" where
  "is_suicide_loop b color [] libertiesFriends libertiesOpponents =
     Inr (b, Some (libertiesFriends, libertiesOpponents))"
| "is_suicide_loop b color (fn # fns) libertiesFriends libertiesOpponents =
     (if board b fn = EMPTY then Inr (b, None)
      else
        (case getStringOfStone b fn of
           Inl e \<Rightarrow> Inl e
         | Inr (b1, string) \<Rightarrow>
             if board b1 fn = color then
               is_suicide_loop b1 color fns
                 (survey libertiesFriends string (stringLiberties b1 string)) libertiesOpponents
             else
               is_suicide_loop b1 color fns libertiesFriends
                 (survey libertiesOpponents string (stringLiberties b1 string))))"

definition is_suicide :: "Board \<Rightarrow> int \<Rightarrow> int \<Rightarrow> raised + (Board \<times> bool)" where
  "is_suicide b fcoord color =
     (case np_index fcoord of
        None \<Rightarrow> Inl (IndexError, b)
      | Some c \<Rightarrow>
          (case is_suicide_loop b color (get_neighbors c) [] [] of
             Inl e \<Rightarrow> Inl e
           | Inr (b1, None) \<Rightarrow> Inr (b1, False)
           | Inr (b1, Some (libertiesFriends, libertiesOpponents)) \<Rightarrow>
               Inr (b1,
                 if list_ex (\<lambda>(s, v). v = 0) libertiesOpponents then False
                 else if length libertiesFriends = 0 then True
                 else if sum_list (map snd libertiesFriends) = 0 then True
                 else False)))"

subsection \<open>Flood fill of a string\<close>

text \<open>
  \<open>_breadthSearchString\<close>: \<open>frontier\<close> is a Python list used as a stack (\<open>pop()\<close> takes
  the last element), so its top is the head of the model's list; \<open>string\<close> is a Python
  set, kept here as the duplicate-free list of its elements in the order in which they
  were added.
\<close>

function breadthSearch_loop :: "(int \<Rightarrow> int) \<Rightarrow> int \<Rightarrow> int list \<Rightarrow> int list \<Rightarrow> int list" where
  "breadthSearch_loop brd color string [] = string"
| "breadthSearch_loop brd color string (current_fc # frontier) =
     (let string1 = (if current_fc \<in> set string then string else string @ [current_fc]);
          new = filter (\<lambda>fn. brd fn = color \<and> fn \<notin> set string1) (get_neighbors current_fc)
      in breadthSearch_loop brd color string1 (rev new @ frontier))"
  by pat_completeness auto

termination breadthSearch_loop
proof (relation "inv_image (less_than <*lex*> less_than)
         (\<lambda>(brd, color, string, frontier).
            (card (({0..<81} \<union> set frontier) - set string),
             length (filter (\<lambda>x. x \<in> set string) frontier)))", goal_cases)
  case 1
  show ?case by auto
next
  case (2 brd color string current_fc frontier x xa)
  show ?case
  proof (cases "current_fc \<in> set string")
    case True
    then have "x = string" using 2 by simp
    moreover have "filter (\<lambda>y. y \<in> set string) (rev xa) = []"
      using 2 True by (auto simp: filter_empty_conv)
    moreover have "({0..<81} \<union> set (rev xa @ frontier)) - set string
        \<subseteq> ({0..<81} \<union> set (current_fc # frontier)) - set string"
      using 2 by (auto dest: get_neighbors_range)
    then have "card (({0..<81} \<union> set (rev xa @ frontier)) - set string)
        \<le> card (({0..<81} \<union> set (current_fc # frontier)) - set string)"
      by (intro card_mono) auto
    ultimately show ?thesis using True by auto
  next
    case False
    then have x: "x = string @ [current_fc]" using 2 by simp
    have "({0..<81} \<union> set (rev xa @ frontier)) - set x
        \<subset> ({0..<81} \<union> set (current_fc # frontier)) - set string"
      using 2 False x by (auto dest: get_neighbors_range)
    then have "card (({0..<81} \<union> set (rev xa @ frontier)) - set x)
        < card (({0..<81} \<union> set (current_fc # frontier)) - set string)"
      by (intro psubset_card_mono) auto
    then show ?thesis by simp
  qed
qed

declare breadthSearch_loop.simps [simp del]

definition breadthSearchString :: "Board \<Rightarrow> int \<Rightarrow> int list" where
  "breadthSearchString b fc = breadthSearch_loop (board b) (board b fc) [fc] [fc]"

subsection \<open>The super-ko check\<close>

fun is_super_ko_loop :: "Board \<Rightarrow> int \<Rightarrow> int list \<Rightarrow> dict \<Rightarrow> raised + (Board \<times> dict)" where
  "is_super_ko_loop b opponent [] libertiesOpponents = Inr (b, libertiesOpponents)"
| "is_super_ko_loop b opponent (fn # fns) libertiesOpponents =
     (if board b fn = opponent then
        (case getStringOfStone b fn of
           Inl e \<Rightarrow> Inl e
         | Inr (b1, s) \<Rightarrow>
             is_super_ko_loop b1 opponent fns (survey libertiesOpponents s (stringLiberties b1 s)))
      else is_super_ko_loop b opponent fns libertiesOpponents)"

text \<open>
  The second loop of \<open>_is_super_ko\<close>: for every surveyed string left with no liberty, the
  Zobrist value of each of its stones is folded into \<open>tmpHash\<close>; the assertion inside the
  loop fails when a stone of the string has not the opponent's colour.
\<close>

fun is_super_ko_fold :: "Board \<Rightarrow> int \<Rightarrow> dict \<Rightarrow> hash \<Rightarrow> raised + hash" where
  "is_super_ko_fold b opponent [] tmpHash = Inr tmpHash"
| "is_super_ko_fold b opponent ((s, v) # d) tmpHash =
     (if v = 0 then
        (let string = breadthSearchString b s in
         if list_ex (\<lambda>fn. board b fn \<noteq> opponent) string then Inl (AssertionError, b)
         else is_super_ko_fold b opponent d
                (fold (\<lambda>fn h. h XOR getPositionHash b fn opponent) string tmpHash))
      else is_super_ko_fold b opponent d tmpHash)"

definition is_super_ko :: "Board \<Rightarrow> int \<Rightarrow> int \<Rightarrow> raised + (Board \<times> bool \<times> hash)" where
  "is_super_ko b fcoord color =
     (case np_index fcoord of
        None \<Rightarrow> Inl (IndexError, b)
      | Some c \<Rightarrow>
          let tmpHash = currentHash b XOR getPositionHash b c color in
          if currentHash b \<noteq> tmpHash XOR getPositionHash b c color then Inl (AssertionError, b)
          else
            (case is_super_ko_loop b (flip color) (get_neighbors c) [] of
               Inl e \<Rightarrow> Inl e
             | Inr (b1, libertiesOpponents) \<Rightarrow>
                 (case is_super_ko_fold b1 (flip color) libertiesOpponents tmpHash of
                    Inl e \<Rightarrow> Inl e
                  | Inr tmpHash1 \<Rightarrow> Inr (b1, tmpHash1 \<in> seenHashes b1, tmpHash1))))"

subsection \<open>Capturing a string\<close>

text \<open>
  \<open>_capture_string\<close> iterates over the Python set that the flood fill returns; Python
  leaves the order of that iteration open, and the model takes the order in which the
  flood fill found the stones.
\<close>

fun capture_neighbors :: "Board \<Rightarrow> int \<Rightarrow> int list \<Rightarrow> raised + Board" where
  "capture_neighbors b s [] = Inr b"
| "capture_neighbors b s (fn # fns) =
     (if board b fn \<noteq> EMPTY then
        (case getStringOfStone b fn of
           Inl e \<Rightarrow> Inl e
         | Inr (b1, st) \<Rightarrow>
             if st \<noteq> s then
               capture_neighbors
                 (b1\<lparr>stringLiberties := (stringLiberties b1)(st := stringLiberties b1 st + 1)\<rparr>) s fns
             else capture_neighbors b1 s fns)
      else capture_neighbors b s fns)"

definition capture_stone :: "Board \<Rightarrow> int \<Rightarrow> raised + Board" where
  "capture_stone b s =
     (let b1 = (if nextPlayer b = WHITE
                then b\<lparr>capturedBLACK := capturedBLACK b + 1, nbBLACK := nbBLACK b - 1\<rparr>
                else b\<lparr>capturedWHITE := capturedWHITE b + 1, nbWHITE := nbWHITE b - 1\<rparr>);
          b2 = b1\<lparr>currentHash := currentHash b1 XOR getPositionHash b1 s (board b1 s)\<rparr>;
          b3 = b2\<lparr>board := (board b2)(s := EMPTY)\<rparr>;
          b4 = b3\<lparr>empties := insert s (empties b3)\<rparr>
      in case capture_neighbors b4 s (get_neighbors s) of
           Inl e \<Rightarrow> Inl e
         | Inr b5 \<Rightarrow>
             Inr (b5\<lparr>stringUnionFind := (stringUnionFind b5)(s := -1),
                      stringSizes := (stringSizes b5)(s := -1),
                      stringLiberties := (stringLiberties b5)(s := -1)\<rparr>))"

fun capture_stones :: "Board \<Rightarrow> int list \<Rightarrow> raised + Board" where
  "capture_stones b [] = Inr b"
| "capture_stones b (s # string) =
     (case capture_stone b s of Inl e \<Rightarrow> Inl e | Inr b1 \<Rightarrow> capture_stones b1 string)"

definition capture_string :: "Board \<Rightarrow> int \<Rightarrow> raised + Board" where
  "capture_string b fc = capture_stones b (breadthSearchString b fc)"

fun capture_strings :: "Board \<Rightarrow> int list \<Rightarrow> raised + Board" where
  "capture_strings b [] = Inr b"
| "capture_strings b (fc # captured) =
     (case capture_string b fc of Inl e \<Rightarrow> Inl e | Inr b1 \<Rightarrow> capture_strings b1 captured)"

subsection \<open>Playing, pushing and popping a move\<close>

text \<open>
  \<open>play_move\<close> returns \<open>None\<close> for the bare \<open>return\<close> on a finished game, and
  \<open>Some\<close> of the boolean otherwise.
\<close>

definition play_move :: "Board \<Rightarrow> int \<Rightarrow> raised + (Board \<times> bool option)" where
  "play_move b fcoord =
     (if gameOver b then Inr (b, None)
      else
        (case
           (if fcoord \<noteq> -1 then
              (case is_super_ko b fcoord (nextPlayer b) of
                 Inl e \<Rightarrow> Inl e
               | Inr (b1, alreadySeen, tmpHash) \<Rightarrow>
                   if alreadySeen then
                     Inr (b1\<lparr>historyMoveNames := historyMoveNames b1 @ [flat_to_name fcoord]\<rparr>, False)
                   else
                     (case put_stone b1 fcoord (nextPlayer b1) of
                        Inl e \<Rightarrow> Inl e
                      | Inr (b2, captured) \<Rightarrow>
                          (case capture_strings b2 captured of
                             Inl e \<Rightarrow> Inl e
                           | Inr b3 \<Rightarrow>
                               if tmpHash \<noteq> currentHash b3 then Inl (AssertionError, b3)
                               else
                                 let b4 = b3\<lparr>lastPlayerHasPassed := False\<rparr>
                                 in Inr (if nextPlayer b4 = WHITE
                                         then b4\<lparr>nbWHITE := nbWHITE b4 + 1\<rparr>
                                         else b4\<lparr>nbBLACK := nbBLACK b4 + 1\<rparr>, True))))
            else
              (let b1 = (if lastPlayerHasPassed b then b\<lparr>gameOver := True\<rparr>
                         else b\<lparr>lastPlayerHasPassed := True\<rparr>)
               in Inr (b1\<lparr>currentHash := currentHash b1 XOR
                            (if nextPlayer b1 = BLACK then passHashB b1 else passHashW b1)\<rparr>, True)))
         of
           Inl e \<Rightarrow> Inl e
         | Inr (b5, False) \<Rightarrow> Inr (b5, Some False)
         | Inr (b5, True) \<Rightarrow>
             Inr (b5\<lparr>seenHashes := insert (currentHash b5) (seenHashes b5),
                      historyMoveNames := historyMoveNames b5 @ [flat_to_name fcoord],
                      nextPlayer := flip (nextPlayer b5)\<rparr>, Some True)))"

definition currentStatus :: "Board \<Rightarrow> Status" where
  "currentStatus b =
     \<lparr> saved_nbWHITE = nbWHITE b, saved_nbBLACK = nbBLACK b,
       saved_capturedWHITE = capturedWHITE b, saved_capturedBLACK = capturedBLACK b,
       saved_nextPlayer = nextPlayer b, saved_board = board b,
       saved_gameOver = gameOver b, saved_lastPlayerHasPassed = lastPlayerHasPassed b,
       saved_stringUnionFind = stringUnionFind b, saved_stringLiberties = stringLiberties b,
       saved_stringSizes = stringSizes b, saved_empties = empties b,
       saved_currentHash = currentHash b \<rparr>"

definition pushBoard :: "Board \<Rightarrow> Board" where
  "pushBoard b = b\<lparr>trailMoves := trailMoves b @ [currentStatus b]\<rparr>"

definition popBoard :: "Board \<Rightarrow> raised + Board" where
  "popBoard b =
     (if trailMoves b = [] then Inl (IndexError, b)
      else
        let oldStatus = last (trailMoves b);
            b1 = b\<lparr>trailMoves := butlast (trailMoves b),
                    currentHash := saved_currentHash oldStatus,
                    empties := saved_empties oldStatus,
                    stringSizes := saved_stringSizes oldStatus,
                    stringLiberties := saved_stringLiberties oldStatus,
                    stringUnionFind := saved_stringUnionFind oldStatus,
                    lastPlayerHasPassed := saved_lastPlayerHasPassed oldStatus,
                    gameOver := saved_gameOver oldStatus,
                    board := saved_board oldStatus,
                    nextPlayer := saved_nextPlayer oldStatus,
                    capturedBLACK := saved_capturedBLACK oldStatus,
                    capturedWHITE := saved_capturedWHITE oldStatus,
                    nbBLACK := saved_nbBLACK oldStatus,
                    nbWHITE := saved_nbWHITE oldStatus\<rparr>
        in if historyMoveNames b1 = [] then Inl (IndexError, b1)
           else Inr (b1\<lparr>historyMoveNames := butlast (historyMoveNames b1)\<rparr>))"

definition push :: "Board \<Rightarrow> int \<Rightarrow> raised + (Board \<times> bool option)" where
  "push b m = (if gameOver b then Inl (AssertionError, b) else play_move (pushBoard b) m)"

definition pop :: "Board \<Rightarrow> raised + Board" where
  "pop b =
     (let hashtopop = currentHash b in
      case popBoard b of
        Inl e \<Rightarrow> Inl e
      | Inr b1 \<Rightarrow>
          Inr (if hashtopop \<in> seenHashes b1
               then b1\<lparr>seenHashes := seenHashes b1 - {hashtopop}\<rparr> else b1))"

subsection \<open>Move generation\<close>

text \<open>
  Both generators iterate over the Python set \<open>_empties\<close>, in an order that Python
  leaves open; the model iterates in ascending order. The checks reroute parent entries
  (\<open>_getStringOfStone\<close>), so the board is threaded through the iteration.
\<close>

fun weak_legal_loop :: "Board \<Rightarrow> int list \<Rightarrow> int list \<Rightarrow> raised + (Board \<times> int list)" where
  "weak_legal_loop b [] moves = Inr (b, moves)"
| "weak_legal_loop b (m # ms) moves =
     (case is_suicide b m (nextPlayer b) of
        Inl e \<Rightarrow> Inl e
      | Inr (b1, suicide) \<Rightarrow> weak_legal_loop b1 ms (if \<not> suicide then moves @ [m] else moves))"

fun legal_loop :: "Board \<Rightarrow> int list \<Rightarrow> int list \<Rightarrow> raised + (Board \<times> int list)" where
  "legal_loop b [] moves = Inr (b, moves)"
| "legal_loop b (m # ms) moves =
     (case is_suicide b m (nextPlayer b) of
        Inl e \<Rightarrow> Inl e
      | Inr (b1, suicide) \<Rightarrow>
          if suicide then legal_loop b1 ms moves
          else
            (case is_super_ko b1 m (nextPlayer b1) of
               Inl e \<Rightarrow> Inl e
             | Inr (b2, alreadySeen, tmpHash) \<Rightarrow>
                 legal_loop b2 ms (if \<not> alreadySeen then moves @ [m] else moves)))"

definition weak_legal_moves :: "Board \<Rightarrow> raised + (Board \<times> int list)" where
  "weak_legal_moves b =
     (case weak_legal_loop b (sorted_list_of_set (empties b)) [] of
        Inl e \<Rightarrow> Inl e
      | Inr (b1, moves) \<Rightarrow> Inr (b1, moves @ [-1]))"

definition legal_moves :: "Board \<Rightarrow> raised + (Board \<times> int list)" where
  "legal_moves b =
     (case legal_loop b (sorted_list_of_set (empties b)) [] of
        Inl e \<Rightarrow> Inl e
      | Inr (b1, moves) \<Rightarrow> Inr (b1, moves @ [-1]))"

subsection \<open>Sequences of pushes and pops\<close>

text \<open>
  \<open>pushes b ms\<close> pushes the moves \<open>ms\<close> one after the other and is \<open>Some\<close> of the last
  board when every push returned \<open>True\<close>; \<open>pops n b\<close> calls \<open>pop\<close> \<open>n\<close> times.
\<close>

fun pushes :: "Board \<Rightarrow> int list \<Rightarrow> Board option" where
  "pushes b [] = Some b"
| "pushes b (m # ms) =
     (case push b m of Inr (b1, Some True) \<Rightarrow> pushes b1 ms | _ \<Rightarrow> None)"

fun pops :: "nat \<Rightarrow> Board \<Rightarrow> raised + Board" where
  "pops 0 b = Inr b"
| "pops (Suc n) b = (case pops n b of Inl e \<Rightarrow> Inl e | Inr b1 \<Rightarrow> pop b1)"

subsection \<open>A game with a ko\<close>

text \<open>
  A board with fixed Zobrist values, and the position after Black B2, White B1, Black C1,
  White A2 and Black A1, which captures the white stone on B1: White's recapture on B1
  would bring back the position after White's A2.
\<close>

definition example_hashes :: "int \<Rightarrow> int \<Rightarrow> hash" where
  "example_hashes c k = take_bit 63 ((2 * c + k + 1) * 0x9E3779B97F4A7C15)"

definition example_board :: Board where
  "example_board = init_board example_hashes 0x1234567 0x1111111111 0x2222222222"

definition ko_board :: Board where
  "ko_board = the (pushes example_board [10, 1, 2, 9, 0])"

text \<open>The same board after two passes: the game is over.\<close>

definition over_board :: Board where
  "over_board = the (pushes example_board [-1, -1])"

subsection \<open>A game with a longer cycle\<close>

text \<open>
  \<open>committed b ms\<close> lists the hashes that the pushes \<open>ms\<close> commit one after the other
  from the board \<open>b\<close>, as long as they return \<open>True\<close>.
\<close>

fun committed :: "Board \<Rightarrow> int list \<Rightarrow> hash list" where
  "committed b [] = []"
| "committed b (m # ms) =
     (case push b m of Inr (b1, Some True) \<Rightarrow> currentHash b1 # committed b1 ms | _ \<Rightarrow> [])"

text \<open>
  The position after Black C2, White A2, Black D1, White B2, Black B1, White H2, Black H1,
  White G1, Black J2 and White J1, which captures the black stone on H1. Black to move:
  the recapture on H1 (cell 7) would bring back the position after Black's J2. The
  position also comes back after three more moves: Black A1, White C1, which captures the
  two black stones on A1 and B1, and Black B1, which captures the white stone on C1.

  \<open>popped_board\<close> is that board after the rejected push of the recapture on H1 and the
  pop that follows it, and \<open>later_board\<close> the board two pushes later, after Black A1 and
  White C1.
\<close>

definition cycle_board :: Board where
  "cycle_board = the (pushes example_board [11, 9, 3, 10, 1, 16, 7, 6, 17, 8])"

definition popped_board :: Board where
  "popped_board = projr (pop (fst (projr (push cycle_board 7))))"

definition later_board :: Board where
  "later_board = the (pushes popped_board [0, 2])"

section \<open>What each operation leaves untouched\<close>

text \<open>
  \<open>statics\<close>: the attributes that only \<open>play_move\<close>, \<open>push\<close> and \<open>pop\<close> themselves
  write. \<open>position\<close>: every other attribute but the parent array, which
  \<open>_getStringOfStone\<close> reroutes on each call.
\<close>

definition statics ::
  "Board \<Rightarrow> Status list \<times> string list \<times> hash set \<times> (int \<Rightarrow> int \<Rightarrow> hash) \<times> hash \<times> hash \<times> int \<times> bool \<times> bool" where
  "statics b = (trailMoves b, historyMoveNames b, seenHashes b, positionHashes b,
     passHashB b, passHashW b, nextPlayer b, gameOver b, lastPlayerHasPassed b)"

definition position ::
  "Board \<Rightarrow> int \<times> int \<times> int \<times> int \<times> (int \<Rightarrow> int) \<times> (int \<Rightarrow> int) \<times> (int \<Rightarrow> int) \<times> int set \<times> hash" where
  "position b = (nbWHITE b, nbBLACK b, capturedWHITE b, capturedBLACK b, board b,
     stringLiberties b, stringSizes b, empties b, currentHash b)"

lemma statics_update [simp]:
  "statics (b\<lparr>stringUnionFind := u\<rparr>) = statics b"
  "statics (b\<lparr>stringLiberties := l\<rparr>) = statics b"
  "statics (b\<lparr>stringSizes := z\<rparr>) = statics b"
  "statics (b\<lparr>board := g\<rparr>) = statics b"
  "statics (b\<lparr>empties := e\<rparr>) = statics b"
  "statics (b\<lparr>currentHash := h\<rparr>) = statics b"
  "statics (b\<lparr>nbWHITE := n\<rparr>) = statics b"
  "statics (b\<lparr>nbBLACK := n\<rparr>) = statics b"
  "statics (b\<lparr>capturedWHITE := n\<rparr>) = statics b"
  "statics (b\<lparr>capturedBLACK := n\<rparr>) = statics b"
  by (simp_all add: statics_def)

lemma position_update [simp]:
  "position (b\<lparr>stringUnionFind := u\<rparr>) = position b"
  "position (b\<lparr>trailMoves := t\<rparr>) = position b"
  "position (b\<lparr>historyMoveNames := hs\<rparr>) = position b"
  "position (b\<lparr>seenHashes := sh\<rparr>) = position b"
  by (simp_all add: position_def)

lemma staticsD:
  assumes "statics b' = statics b"
  shows "trailMoves b' = trailMoves b" "historyMoveNames b' = historyMoveNames b"
    "seenHashes b' = seenHashes b" "positionHashes b' = positionHashes b"
    "passHashB b' = passHashB b" "passHashW b' = passHashW b"
    "nextPlayer b' = nextPlayer b" "gameOver b' = gameOver b"
    "lastPlayerHasPassed b' = lastPlayerHasPassed b"
  using assms by (simp_all add: statics_def)

lemma positionD:
  assumes "position b' = position b"
  shows "nbWHITE b' = nbWHITE b" "nbBLACK b' = nbBLACK b"
    "capturedWHITE b' = capturedWHITE b" "capturedBLACK b' = capturedBLACK b"
    "board b' = board b" "stringLiberties b' = stringLiberties b"
    "stringSizes b' = stringSizes b" "empties b' = empties b" "currentHash b' = currentHash b"
  using assms by (simp_all add: position_def)

lemma getStringOfStone_statics: "getStringOfStone b fc = Inr (b', r) \<Longrightarrow> statics b' = statics b"
  by (auto simp: getStringOfStone_def split: option.splits if_splits)

lemma getStringOfStone_position: "getStringOfStone b fc = Inr (b', r) \<Longrightarrow> position b' = position b"
  by (auto simp: getStringOfStone_def split: option.splits if_splits)

lemma merge_strings_statics: "merge_strings b s1 s2 = Inr b' \<Longrightarrow> statics b' = statics b"
  by (auto simp: merge_strings_def Let_def split: if_splits)

lemma put_stone_loop_statics:
  "put_stone_loop b color fns cur acc = Inr (b', captured) \<Longrightarrow> statics b' = statics b"
proof (induction fns arbitrary: b cur acc color)
  case Nil
  then show ?case by simp
next
  case (Cons fn fns)
  from Cons.prems show ?case
    by (auto simp: Let_def split: sum.splits if_splits
          dest!: getStringOfStone_statics merge_strings_statics Cons.IH)
qed

lemma put_stone_statics: "put_stone b fc color = Inr (b', captured) \<Longrightarrow> statics b' = statics b"
  by (auto simp: put_stone_def Let_def split: option.splits if_splits prod.splits
        dest!: put_stone_loop_statics)

lemma capture_neighbors_statics: "capture_neighbors b s fns = Inr b' \<Longrightarrow> statics b' = statics b"
proof (induction fns arbitrary: b)
  case Nil
  then show ?case by simp
next
  case (Cons fn fns)
  from Cons.prems show ?case
    by (auto split: sum.splits if_splits dest!: getStringOfStone_statics Cons.IH)
qed

lemma capture_stone_statics: "capture_stone b s = Inr b' \<Longrightarrow> statics b' = statics b"
  by (auto simp: capture_stone_def Let_def split: sum.splits if_splits
        dest!: capture_neighbors_statics)

lemma capture_stones_statics: "capture_stones b ss = Inr b' \<Longrightarrow> statics b' = statics b"
proof (induction ss arbitrary: b)
  case Nil
  then show ?case by simp
next
  case (Cons s ss)
  from Cons.prems show ?case
    by (auto split: sum.splits dest!: capture_stone_statics Cons.IH)
qed

lemma capture_strings_statics: "capture_strings b fcs = Inr b' \<Longrightarrow> statics b' = statics b"
proof (induction fcs arbitrary: b)
  case Nil
  then show ?case by simp
next
  case (Cons fc fcs)
  from Cons.prems show ?case
    by (auto simp: capture_string_def split: sum.splits dest!: capture_stones_statics Cons.IH)
qed

lemma is_super_ko_loop_statics:
  "is_super_ko_loop b opp fns d = Inr (b', d') \<Longrightarrow> statics b' = statics b"
proof (induction fns arbitrary: b d opp)
  case Nil
  then show ?case by simp
next
  case (Cons fn fns)
  from Cons.prems show ?case
    by (auto split: sum.splits if_splits dest!: getStringOfStone_statics Cons.IH)
qed

lemma is_super_ko_loop_position:
  "is_super_ko_loop b opp fns d = Inr (b', d') \<Longrightarrow> position b' = position b"
proof (induction fns arbitrary: b d opp)
  case Nil
  then show ?case by simp
next
  case (Cons fn fns)
  from Cons.prems show ?case
    by (auto split: sum.splits if_splits dest!: getStringOfStone_position Cons.IH)
qed

lemma is_super_ko_statics: "is_super_ko b fc color = Inr (b', r) \<Longrightarrow> statics b' = statics b"
  by (auto simp: is_super_ko_def Let_def split: option.splits sum.splits if_splits
        dest!: is_super_ko_loop_statics)

lemma is_super_ko_position: "is_super_ko b fc color = Inr (b', r) \<Longrightarrow> position b' = position b"
  by (auto simp: is_super_ko_def Let_def split: option.splits sum.splits if_splits
        dest!: is_super_ko_loop_position)

lemma is_suicide_loop_statics:
  "is_suicide_loop b color fns lf lo = Inr (b', r) \<Longrightarrow> statics b' = statics b"
proof (induction fns arbitrary: b lf lo color)
  case Nil
  then show ?case by simp
next
  case (Cons fn fns)
  from Cons.prems show ?case
    by (auto split: sum.splits if_splits dest!: getStringOfStone_statics Cons.IH)
qed

lemma is_suicide_loop_position:
  "is_suicide_loop b color fns lf lo = Inr (b', r) \<Longrightarrow> position b' = position b"
proof (induction fns arbitrary: b lf lo color)
  case Nil
  then show ?case by simp
next
  case (Cons fn fns)
  from Cons.prems show ?case
    by (auto split: sum.splits if_splits dest!: getStringOfStone_position Cons.IH)
qed

lemma is_suicide_statics: "is_suicide b fc color = Inr (b', r) \<Longrightarrow> statics b' = statics b"
  by (auto simp: is_suicide_def split: option.splits sum.splits prod.splits if_splits
        dest!: is_suicide_loop_statics)

lemma is_suicide_position: "is_suicide b fc color = Inr (b', r) \<Longrightarrow> position b' = position b"
  by (auto simp: is_suicide_def split: option.splits sum.splits prod.splits if_splits
        dest!: is_suicide_loop_position)

section \<open>Pushing and popping\<close>

lemma play_move_gameOver: "gameOver b \<Longrightarrow> play_move b m = Inr (b, None)"
  by (simp add: play_move_def)

lemma play_move_None: "play_move b m = Inr (b', None) \<Longrightarrow> gameOver b \<and> b' = b"
  by (auto simp: play_move_def Let_def split: if_splits sum.splits prod.splits bool.splits)

lemma play_move_False:
  assumes "play_move b m = Inr (b', Some False)"
  shows "\<exists>b1 h. is_super_ko b m (nextPlayer b) = Inr (b1, True, h) \<and> m \<noteq> -1 \<and> \<not> gameOver b \<and>
           b' = b1\<lparr>historyMoveNames := historyMoveNames b1 @ [flat_to_name m]\<rparr>"
  using assms
  by (auto simp: play_move_def Let_def split: if_splits sum.splits prod.splits bool.splits)

lemma play_move_trail:
  assumes "play_move b m = Inr (b', Some r)"
  shows "trailMoves b' = trailMoves b \<and> historyMoveNames b' = historyMoveNames b @ [flat_to_name m]"
  using assms
  by (auto simp: play_move_def Let_def split: if_splits sum.splits prod.splits bool.splits
      dest!: is_super_ko_statics put_stone_statics capture_strings_statics)
     (simp_all add: statics_def)

lemma push_trail:
  assumes "push b m = Inr (b', r)"
  shows "r \<noteq> None \<and> trailMoves b' = trailMoves b @ [currentStatus b] \<and>
         historyMoveNames b' = historyMoveNames b @ [flat_to_name m]"
proof -
  have ng: "\<not> gameOver b" and pm: "play_move (pushBoard b) m = Inr (b', r)"
    using assms by (auto simp: push_def split: if_splits)
  have "\<not> gameOver (pushBoard b)" using ng by (simp add: pushBoard_def)
  then obtain x where r: "r = Some x" using play_move_None[of "pushBoard b" m b'] pm by (cases r) auto
  from play_move_trail[OF pm[unfolded r]] show ?thesis
    by (simp add: r pushBoard_def)
qed

lemma pop_restores:
  assumes "trailMoves b = t @ [s]" and "historyMoveNames b = h @ [n]"
  shows "\<exists>b'. pop b = Inr b' \<and> currentStatus b' = s \<and> trailMoves b' = t \<and>
           historyMoveNames b' = h \<and> seenHashes b' = seenHashes b - {currentHash b} \<and>
           positionHashes b' = positionHashes b \<and> passHashB b' = passHashB b \<and>
           passHashW b' = passHashW b"
  using assms by (auto simp: pop_def popBoard_def currentStatus_def Let_def)

lemma pushes_pops_status:
  "pushes b ms = Some b' \<Longrightarrow>
     \<exists>b''. pops (length ms) b' = Inr b'' \<and> currentStatus b'' = currentStatus b \<and>
       trailMoves b'' = trailMoves b \<and> historyMoveNames b'' = historyMoveNames b"
proof (induction ms arbitrary: b)
  case Nil
  then show ?case by simp
next
  case (Cons m ms)
  from Cons.prems obtain b1 where p: "push b m = Inr (b1, Some True)" and ps: "pushes b1 ms = Some b'"
    by (auto split: sum.splits option.splits bool.splits)
  from Cons.IH[OF ps] obtain c where c: "pops (length ms) b' = Inr c"
    "currentStatus c = currentStatus b1" "trailMoves c = trailMoves b1"
    "historyMoveNames c = historyMoveNames b1" by blast
  from push_trail[OF p] have "trailMoves c = trailMoves b @ [currentStatus b]"
    "historyMoveNames c = historyMoveNames b @ [flat_to_name m]" using c by simp_all
  from pop_restores[OF this] obtain b'' where "pop c = Inr b''" "currentStatus b'' = currentStatus b"
    "trailMoves b'' = trailMoves b" "historyMoveNames b'' = historyMoveNames b" by blast
  then show ?case using c(1) by simp
qed

lemma currentStatus_eq_iff:
  "currentStatus b' = currentStatus b \<longleftrightarrow>
     nbWHITE b' = nbWHITE b \<and> nbBLACK b' = nbBLACK b \<and> capturedWHITE b' = capturedWHITE b \<and>
     capturedBLACK b' = capturedBLACK b \<and> nextPlayer b' = nextPlayer b \<and> board b' = board b \<and>
     gameOver b' = gameOver b \<and> lastPlayerHasPassed b' = lastPlayerHasPassed b \<and>
     stringUnionFind b' = stringUnionFind b \<and> stringLiberties b' = stringLiberties b \<and>
     stringSizes b' = stringSizes b \<and> empties b' = empties b \<and> currentHash b' = currentHash b"
  by (auto simp: currentStatus_def)

text \<open>
  C3. After any sequence of pushes that all returned \<open>True\<close>, as many pops succeed and
  give back the hash, the four stone counts, the grid, the set of empty cells, the three
  arrays of the string registry, the side to move and both flags of the board before the
  first push (and its trail and its list of move names): each pop restores the whole
  saved frame.
\<close>

theorem pushes_pops_restore:
  assumes "pushes b ms = Some b'"
  shows "\<exists>b''. pops (length ms) b' = Inr b'' \<and>
           currentHash b'' = currentHash b \<and>
           nbWHITE b'' = nbWHITE b \<and> nbBLACK b'' = nbBLACK b \<and>
           capturedWHITE b'' = capturedWHITE b \<and> capturedBLACK b'' = capturedBLACK b \<and>
           board b'' = board b \<and> empties b'' = empties b \<and>
           stringUnionFind b'' = stringUnionFind b \<and> stringLiberties b'' = stringLiberties b \<and>
           stringSizes b'' = stringSizes b \<and> nextPlayer b'' = nextPlayer b \<and>
           lastPlayerHasPassed b'' = lastPlayerHasPassed b \<and> gameOver b'' = gameOver b \<and>
           trailMoves b'' = trailMoves b \<and> historyMoveNames b'' = historyMoveNames b"
proof -
  from pushes_pops_status[OF assms] obtain b'' where
    "pops (length ms) b' = Inr b''" "currentStatus b'' = currentStatus b"
    "trailMoves b'' = trailMoves b" "historyMoveNames b'' = historyMoveNames b" by blast
  then show ?thesis by (auto simp: currentStatus_eq_iff)
qed

lemma ko_game_pushes: "pushes example_board [10, 1, 2, 9, 0] = Some ko_board"
proof -
  have "pushes example_board [10, 1, 2, 9, 0] \<noteq> None" by code_simp
  then show ?thesis by (auto simp: ko_board_def)
qed

theorem pushes_pops_restore_witness:
  "pushes example_board [10, 1, 2, 9, 0] = Some ko_board \<and>
   (\<exists>b''. pops (length [10, 1, 2, 9, 0 :: int]) ko_board = Inr b'' \<and>
           currentHash b'' = currentHash example_board \<and>
           nbWHITE b'' = nbWHITE example_board \<and> nbBLACK b'' = nbBLACK example_board \<and>
           capturedWHITE b'' = capturedWHITE example_board \<and>
           capturedBLACK b'' = capturedBLACK example_board \<and>
           board b'' = board example_board \<and> empties b'' = empties example_board \<and>
           stringUnionFind b'' = stringUnionFind example_board \<and>
           stringLiberties b'' = stringLiberties example_board \<and>
           stringSizes b'' = stringSizes example_board \<and>
           nextPlayer b'' = nextPlayer example_board \<and>
           lastPlayerHasPassed b'' = lastPlayerHasPassed example_board \<and>
           gameOver b'' = gameOver example_board \<and>
           trailMoves b'' = trailMoves example_board \<and>
           historyMoveNames b'' = historyMoveNames example_board)"
  using pushes_pops_restore[OF ko_game_pushes] ko_game_pushes by blast

section \<open>Usage errors\<close>

lemma push_gameOver: "gameOver b \<Longrightarrow> push b m = Inl (AssertionError, b)"
  by (simp add: push_def)

lemma push_running: "\<not> gameOver b \<Longrightarrow> push b m = play_move (pushBoard b) m"
  by (simp add: push_def)

lemma pushBoard_fields [simp]:
  "gameOver (pushBoard b) = gameOver b" "empties (pushBoard b) = empties b"
  "nextPlayer (pushBoard b) = nextPlayer b" "currentHash (pushBoard b) = currentHash b"
  "seenHashes (pushBoard b) = seenHashes b" "position (pushBoard b) = position b"
  "historyMoveNames (pushBoard b) = historyMoveNames b"
  "stringUnionFind (pushBoard b) = stringUnionFind b"
  "board (pushBoard b) = board b" "positionHashes (pushBoard b) = positionHashes b"
  "trailMoves (pushBoard b) = trailMoves b @ [currentStatus b]"
  by (simp_all add: pushBoard_def)

lemma is_super_ko_IndexError: "np_index m = None \<Longrightarrow> is_super_ko b m color = Inl (IndexError, b)"
  by (simp add: is_super_ko_def)

lemma play_move_IndexError:
  "\<not> gameOver b \<Longrightarrow> m \<noteq> -1 \<Longrightarrow> np_index m = None \<Longrightarrow> play_move b m = Inl (IndexError, b)"
  by (simp add: play_move_def is_super_ko_IndexError)

text \<open>
  \<open>_put_stone\<close> on a cell that is not in the set of empty cells: the first two statements
  have written the colour into the grid and the stone into the hash when \<open>set.remove\<close>
  raises.
\<close>

lemma put_stone_KeyError:
  "m \<notin> empties b \<Longrightarrow> np_index m = Some c \<Longrightarrow>
     put_stone b m color =
       Inl (KeyError, b\<lparr>board := (board b)(c := color),
                         currentHash := currentHash b XOR getPositionHash b c color\<rparr>)"
  by (simp add: put_stone_def Let_def)

lemma play_move_KeyError:
  assumes "\<not> gameOver b" "m \<noteq> -1" "m \<notin> empties b"
    and k: "is_super_ko b m (nextPlayer b) = Inr (b1, False, h)" and c: "np_index m = Some c"
  shows "play_move b m =
           Inl (KeyError, b1\<lparr>board := (board b)(c := nextPlayer b),
                 currentHash := currentHash b XOR getPositionHash b c (nextPlayer b)\<rparr>)"
proof -
  note p = positionD[OF is_super_ko_position[OF k]]
  note t = staticsD[OF is_super_ko_statics[OF k]]
  have "m \<notin> empties b1" using p(8) assms(3) by simp
  from put_stone_KeyError[OF this c, of "nextPlayer b1"]
  have "put_stone b1 m (nextPlayer b1) =
          Inl (KeyError, b1\<lparr>board := (board b)(c := nextPlayer b),
                 currentHash := currentHash b XOR getPositionHash b c (nextPlayer b)\<rparr>)"
    using p(5,9) t(4,7) by (simp add: getPositionHash_def)
  then show ?thesis using assms(1,2) k by (simp add: play_move_def)
qed

lemma play_move_not_empty:
  assumes "\<not> gameOver b" "m \<noteq> -1" "m \<notin> empties b"
  shows "play_move b m \<noteq> Inr (b', Some True)"
proof
  assume t: "play_move b m = Inr (b', Some True)"
  then obtain b1 h where k: "is_super_ko b m (nextPlayer b) = Inr (b1, False, h)"
    using assms by (auto simp: play_move_def Let_def split: if_splits sum.splits prod.splits bool.splits)
  then obtain c where "np_index m = Some c"
    by (cases "np_index m") (auto simp: is_super_ko_def)
  from play_move_KeyError[OF assms k this] t show False by simp
qed

lemma over_board_gameOver: "gameOver over_board"
  unfolding over_board_def by code_simp

lemma ko_board_running: "\<not> gameOver ko_board"
  unfolding ko_board_def by code_simp

text \<open>
  C9, as stated, fails: on a finished game \<open>play_move\<close> takes its first line,
  \<open>if self._gameOver: return\<close>, and returns \<open>None\<close> with the board as it was. Here the
  game is over after two passes and a move to cell 40 is played.
\<close>

theorem play_move_game_over_counterexample:
  "gameOver over_board \<and> play_move over_board 40 = Inr (over_board, None)"
  using over_board_gameOver play_move_gameOver by blast

text \<open>
  C9, amended. On a finished game \<open>push\<close> fails its assertion, and \<open>play_move\<close>
  returns \<open>None\<close> and changes nothing. While the game runs, a move other than the pass to
  an index outside \<open>-81..80\<close> raises \<open>IndexError\<close> before anything is written
  (\<open>push\<close> has stored its snapshot by then). A move other than the pass to a cell that is
  not in the set of empty cells never returns \<open>True\<close>, in \<open>play_move\<close> and in \<open>push\<close>:
  either the super-ko check rejects it with \<open>False\<close>, or \<open>_put_stone\<close> raises
  \<open>KeyError\<close>, and the exception leaves the board with the colour of the side to move
  written over the cell of the grid and with the Zobrist value of that stone XORed into the
  hash (and, in \<open>push\<close>, with the snapshot on the trail).
\<close>

theorem usage_errors:
  "(gameOver b \<longrightarrow> push b m = Inl (AssertionError, b) \<and> play_move b m = Inr (b, None)) \<and>
   (\<not> gameOver b \<and> m \<noteq> -1 \<and> np_index m = None \<longrightarrow>
      play_move b m = Inl (IndexError, b) \<and> push b m = Inl (IndexError, pushBoard b)) \<and>
   (\<not> gameOver b \<and> m \<noteq> -1 \<and> m \<notin> empties b \<longrightarrow>
      (\<forall>b'. play_move b m \<noteq> Inr (b', Some True)) \<and>
      (\<forall>b'. push b m \<noteq> Inr (b', Some True)) \<and>
      (\<forall>b1 h c. is_super_ko b m (nextPlayer b) = Inr (b1, False, h) \<and> np_index m = Some c \<longrightarrow>
         play_move b m =
           Inl (KeyError, b1\<lparr>board := (board b)(c := nextPlayer b),
                 currentHash := currentHash b XOR getPositionHash b c (nextPlayer b)\<rparr>)) \<and>
      (\<forall>b1 h c. is_super_ko (pushBoard b) m (nextPlayer b) = Inr (b1, False, h) \<and>
           np_index m = Some c \<longrightarrow>
         push b m =
           Inl (KeyError, b1\<lparr>board := (board b)(c := nextPlayer b),
                 currentHash := currentHash b XOR getPositionHash b c (nextPlayer b)\<rparr>) \<and>
         trailMoves b1 = trailMoves b @ [currentStatus b]))"
proof (intro conjI impI allI)
  show "push b m = Inl (AssertionError, b)" if "gameOver b"
    using that by (rule push_gameOver)
  show "play_move b m = Inr (b, None)" if "gameOver b"
    using that by (rule play_move_gameOver)
  show "play_move b m = Inl (IndexError, b)" if "\<not> gameOver b \<and> m \<noteq> -1 \<and> np_index m = None"
    using that by (simp add: play_move_IndexError)
  show "push b m = Inl (IndexError, pushBoard b)" if "\<not> gameOver b \<and> m \<noteq> -1 \<and> np_index m = None"
    using that by (simp add: push_running play_move_IndexError)
  show "play_move b m \<noteq> Inr (b', Some True)" if "\<not> gameOver b \<and> m \<noteq> -1 \<and> m \<notin> empties b" for b'
    using that by (simp add: play_move_not_empty)
  show "push b m \<noteq> Inr (b', Some True)" if "\<not> gameOver b \<and> m \<noteq> -1 \<and> m \<notin> empties b" for b'
    using that by (simp add: push_running play_move_not_empty)
  show "play_move b m =
           Inl (KeyError, b1\<lparr>board := (board b)(c := nextPlayer b),
                 currentHash := currentHash b XOR getPositionHash b c (nextPlayer b)\<rparr>)"
    if "\<not> gameOver b \<and> m \<noteq> -1 \<and> m \<notin> empties b"
      and "is_super_ko b m (nextPlayer b) = Inr (b1, False, h) \<and> np_index m = Some c" for b1 h c
    using that play_move_KeyError by blast
next
  fix b1 h c
  assume a: "\<not> gameOver b \<and> m \<noteq> -1 \<and> m \<notin> empties b"
    and k: "is_super_ko (pushBoard b) m (nextPlayer b) = Inr (b1, False, h) \<and> np_index m = Some c"
  have "play_move (pushBoard b) m =
           Inl (KeyError, b1\<lparr>board := (board (pushBoard b))(c := nextPlayer (pushBoard b)),
                 currentHash := currentHash (pushBoard b) XOR
                   getPositionHash (pushBoard b) c (nextPlayer (pushBoard b))\<rparr>)"
    by (rule play_move_KeyError) (use a k in simp_all)
  then show "push b m =
           Inl (KeyError, b1\<lparr>board := (board b)(c := nextPlayer b),
                 currentHash := currentHash b XOR getPositionHash b c (nextPlayer b)\<rparr>)"
    using a by (simp add: push_running getPositionHash_def)
  from k have "is_super_ko (pushBoard b) m (nextPlayer b) = Inr (b1, False, h)" by simp
  then have "statics b1 = statics (pushBoard b)" by (rule is_super_ko_statics)
  from staticsD(1)[OF this] show "trailMoves b1 = trailMoves b @ [currentStatus b]" by simp
qed

theorem usage_errors_witness:
  "gameOver over_board \<and> push over_board 40 = Inl (AssertionError, over_board) \<and>
   play_move over_board 40 = Inr (over_board, None) \<and>
   \<not> gameOver ko_board \<and> np_index 100 = None \<and>
   play_move ko_board 100 = Inl (IndexError, ko_board) \<and>
   push ko_board 100 = Inl (IndexError, pushBoard ko_board) \<and>
   10 \<notin> empties ko_board \<and> board ko_board 10 = 1 \<and> nextPlayer ko_board = 2 \<and>
   (\<exists>b'. play_move ko_board 10 = Inl (KeyError, b') \<and> board b' 10 = 2 \<and>
      currentHash b' = currentHash ko_board XOR getPositionHash ko_board 10 2 \<and>
      currentHash b' \<noteq> currentHash ko_board)"
proof -
  have i: "np_index 100 = None" by (simp add: np_index_def)
  have c: "np_index 10 = Some 10" by (simp add: np_index_def)
  have e: "10 \<notin> empties ko_board" unfolding ko_board_def by code_simp
  have g: "board ko_board 10 = 1" unfolding ko_board_def by code_simp
  have n: "nextPlayer ko_board = 2" unfolding ko_board_def by code_simp
  have x: "currentHash ko_board XOR getPositionHash ko_board 10 2 \<noteq> currentHash ko_board"
    unfolding ko_board_def by code_simp
  have "case is_super_ko ko_board 10 (nextPlayer ko_board) of
          Inr (b1, seen, h) \<Rightarrow> \<not> seen | Inl e \<Rightarrow> False"
    unfolding ko_board_def by code_simp
  then obtain b1 h where k: "is_super_ko ko_board 10 (nextPlayer ko_board) = Inr (b1, False, h)"
    by (auto split: sum.splits)
  from usage_errors[of ko_board 10] ko_board_running e k c n
  have "play_move ko_board 10 =
          Inl (KeyError, b1\<lparr>board := (board ko_board)(10 := 2),
                currentHash := currentHash ko_board XOR getPositionHash ko_board 10 2\<rparr>)"
    by simp
  then have "\<exists>b'. play_move ko_board 10 = Inl (KeyError, b') \<and> board b' 10 = 2 \<and>
      currentHash b' = currentHash ko_board XOR getPositionHash ko_board 10 2 \<and>
      currentHash b' \<noteq> currentHash ko_board"
    using x by simp
  then show ?thesis
    using usage_errors[of over_board 40] usage_errors[of ko_board 100]
      over_board_gameOver ko_board_running i e g n
    by simp
qed

section \<open>The union-find\<close>

text \<open>
  \<open>root_of uf c r\<close>: following the parent entries from \<open>c\<close> ends in the cell \<open>r\<close>, whose
  entry is \<open>-1\<close>.
\<close>

inductive root_of :: "(int \<Rightarrow> int) \<Rightarrow> int \<Rightarrow> int \<Rightarrow> bool" for uf where
  root: "uf c = -1 \<Longrightarrow> root_of uf c c"
| step: "uf c \<noteq> -1 \<Longrightarrow> root_of uf (uf c) r \<Longrightarrow> root_of uf c r"

lemma root_of_is_root: "root_of uf c r \<Longrightarrow> uf r = -1"
  by (induction rule: root_of.induct) auto

lemma root_of_functional: "root_of uf c r \<Longrightarrow> root_of uf c r' \<Longrightarrow> r = r'"
proof (induction arbitrary: r' rule: root_of.induct)
  case (root c)
  then show ?case by (auto elim: root_of.cases)
next
  case (step c r)
  from step.prems step.hyps(1) have "root_of uf (uf c) r'" by (auto elim: root_of.cases)
  then show ?case by (rule step.IH)
qed

lemma root_of_root_iff: "uf c = -1 \<Longrightarrow> root_of uf c r \<longleftrightarrow> r = c"
  by (auto intro: root_of.root elim: root_of.cases)

lemma root_of_step_iff: "uf c \<noteq> -1 \<Longrightarrow> root_of uf c r \<longleftrightarrow> root_of uf (uf c) r"
  by (auto intro: root_of.step elim: root_of.cases)

lemma root_of_ne: "root_of uf c r \<Longrightarrow> uf c \<noteq> -1 \<Longrightarrow> r \<noteq> -1 \<and> r \<noteq> c"
proof (induction rule: root_of.induct)
  case (root c)
  then show ?case by simp
next
  case (step c r)
  show ?case
  proof (cases "uf (uf c) = -1")
    case True
    then have "r = uf c" using step.hyps(2) by (simp add: root_of_root_iff)
    then show ?thesis using step.hyps(1) True by auto
  next
    case False
    then show ?thesis using step.IH root_of_is_root[OF step.hyps(2)] step.hyps(1) by auto
  qed
qed

text \<open>The loop returns the root, and the cells it stepped to: all of them lead to the root,
  and all but the last have a parent.\<close>

lemma find_loop_root:
  "root_of uf c r \<Longrightarrow>
     \<exists>p. find_loop uf c acc = Some (r, acc @ p) \<and> (\<forall>x \<in> set p. root_of uf x r) \<and>
         (\<forall>x \<in> set (butlast p). uf x \<noteq> -1)"
proof (induction arbitrary: acc rule: root_of.induct)
  case (root c)
  then show ?case by (subst find_loop.simps) simp
next
  case (step c r)
  from step.IH[of "acc @ [uf c]"] obtain p where p: "find_loop uf (uf c) (acc @ [uf c]) = Some (r, (acc @ [uf c]) @ p)"
    "\<forall>x \<in> set p. root_of uf x r" "\<forall>x \<in> set (butlast p). uf x \<noteq> -1" by blast
  have "find_loop uf c acc = Some (r, acc @ (uf c # p))"
    using step.hyps(1) p(1) by (subst find_loop.simps) simp
  moreover have "\<forall>x \<in> set (uf c # p). root_of uf x r" using p(2) step.hyps(2) by simp
  moreover have "\<forall>x \<in> set (butlast (uf c # p)). uf x \<noteq> -1"
  proof (cases p)
    case Nil
    then show ?thesis by simp
  next
    case (Cons a q)
    have "uf (uf c) \<noteq> -1"
    proof
      assume "uf (uf c) = -1"
      then have "find_loop uf (uf c) (acc @ [uf c]) = Some (uf c, acc @ [uf c])"
        by (subst find_loop.simps) simp
      with p(1) Cons show False by simp
    qed
    then show ?thesis using p(3) Cons by simp
  qed
  ultimately show ?case by blast
qed


lemma find_loop_Some_root:
  assumes "find_loop uf c acc = Some y"
  shows "root_of uf c (fst y)"
proof (rule find_loop.raw_induct[where P = "\<lambda>uf c acc y. root_of uf c (fst y)", OF _ assms], goal_cases)
  case (1 find_loop uf c acc y)
  then show ?case
    by (cases y) (auto split: if_splits intro: root_of.intros)
qed


definition rerouted :: "(int \<Rightarrow> int) \<Rightarrow> (int \<Rightarrow> int) \<Rightarrow> bool" where
  "rerouted uf uf' \<longleftrightarrow> (\<forall>a. uf' a = uf a \<or> (uf a \<noteq> -1 \<and> root_of uf a (uf' a)))"

lemma rerouted_refl: "rerouted uf uf"
  by (simp add: rerouted_def)

lemma reroutedD: "rerouted uf uf' \<Longrightarrow> uf' a = uf a \<or> (uf a \<noteq> -1 \<and> root_of uf a (uf' a))"
  by (simp add: rerouted_def)

lemma rerouted_keeps_root: "rerouted uf uf' \<Longrightarrow> uf a = -1 \<Longrightarrow> uf' a = -1"
  using reroutedD[of uf uf' a] by auto

lemma rerouted_root_of_fwd:
  assumes "rerouted uf uf'" and "root_of uf a y"
  shows "root_of uf' a y"
  using assms(2)
proof (induction rule: root_of.induct)
  case (root c)
  then have "uf' c = -1" using assms(1) by (simp add: rerouted_keeps_root)
  then show ?case by (rule root_of.root)
next
  case (step c r)
  from reroutedD[OF assms(1), of c] consider "uf' c = uf c" | "uf c \<noteq> -1" "root_of uf c (uf' c)"
    by auto
  then show ?case
  proof cases
    case 1
    then show ?thesis using step by (auto intro: root_of.step)
  next
    case 2
    have rc: "root_of uf c r" using step.hyps by (rule root_of.step)
    then have e: "uf' c = r" using 2(2) root_of_functional by blast
    have "uf r = -1" using rc by (rule root_of_is_root)
    then have "uf' r = -1" using assms(1) by (simp add: rerouted_keeps_root)
    then have "root_of uf' r r" by (rule root_of.root)
    moreover have "r \<noteq> -1" using root_of_ne[OF rc step.hyps(1)] by simp
    ultimately show ?thesis using e by (auto intro: root_of.step)
  qed
qed

lemma rerouted_root_of_bwd:
  assumes "rerouted uf uf'" and "root_of uf' a y"
  shows "root_of uf a y"
  using assms(2)
proof (induction rule: root_of.induct)
  case (root c)
  from reroutedD[OF assms(1), of c] consider "uf' c = uf c" | "uf c \<noteq> -1" "root_of uf c (uf' c)"
    by auto
  then show ?case
  proof cases
    case 1
    then show ?thesis using root by (auto intro: root_of.root)
  next
    case 2
    then show ?thesis using root root_of_ne by fastforce
  qed
next
  case (step c r)
  from reroutedD[OF assms(1), of c] consider "uf' c = uf c" | "uf c \<noteq> -1" "root_of uf c (uf' c)"
    by auto
  then show ?case
  proof cases
    case 1
    then show ?thesis using step by (auto intro: root_of.step)
  next
    case 2
    have "uf (uf' c) = -1" using 2(2) by (rule root_of_is_root)
    then have "r = uf' c" using step.IH by (simp add: root_of_root_iff)
    then show ?thesis using 2(2) by simp
  qed
qed

lemma rerouted_root_of: "rerouted uf uf' \<Longrightarrow> root_of uf' a y \<longleftrightarrow> root_of uf a y"
  using rerouted_root_of_fwd rerouted_root_of_bwd by blast

lemma rerouted_trans:
  assumes "rerouted uf uf'" "rerouted uf' uf''"
  shows "rerouted uf uf''"
  unfolding rerouted_def
proof
  fix a
  from reroutedD[OF assms(2), of a] consider "uf'' a = uf' a" | "uf' a \<noteq> -1" "root_of uf' a (uf'' a)"
    by auto
  then show "uf'' a = uf a \<or> (uf a \<noteq> -1 \<and> root_of uf a (uf'' a))"
  proof cases
    case 1
    then show ?thesis using reroutedD[OF assms(1), of a] by auto
  next
    case 2
    have r: "root_of uf a (uf'' a)" using 2(2) rerouted_root_of[OF assms(1)] by simp
    have "uf a \<noteq> -1"
    proof
      assume "uf a = -1"
      then have "uf' a = -1" using assms(1) by (simp add: rerouted_keeps_root)
      then show False using 2(1) by simp
    qed
    then show ?thesis using r by simp
  qed
qed

lemma reroute_apply: "reroute xs r uf a = (if a \<in> set xs then r else uf a)"
  unfolding reroute_def by (induction xs arbitrary: uf) auto

lemma reroute_rerouted:
  assumes "\<forall>x \<in> set xs. root_of uf x r \<and> uf x \<noteq> -1"
  shows "rerouted uf (reroute xs r uf)"
  using assms by (auto simp: rerouted_def reroute_apply)

text \<open>What \<open>_getStringOfStone\<close> does on a cell that has a root, and that it returns only then.\<close>

lemma getStringOfStone_root:
  assumes "root_of (stringUnionFind b) c r"
  shows "\<exists>b'. getStringOfStone b c = Inr (b', r) \<and> statics b' = statics b \<and>
           position b' = position b \<and> rerouted (stringUnionFind b) (stringUnionFind b')"
proof -
  from find_loop_root[OF assms, of "[]"] obtain p where p:
    "find_loop (stringUnionFind b) c [] = Some (r, p)" "\<forall>x \<in> set p. root_of (stringUnionFind b) x r"
    "\<forall>x \<in> set (butlast p). stringUnionFind b x \<noteq> -1" by auto
  have "\<forall>x \<in> set (butlast p). root_of (stringUnionFind b) x r \<and> stringUnionFind b x \<noteq> -1"
    using p(2,3) by (auto dest: in_set_butlastD)
  from reroute_rerouted[OF this] show ?thesis
    using p(1) by (auto simp: getStringOfStone_def rerouted_refl)
qed

lemma getStringOfStone_Inr:
  assumes "getStringOfStone b c = Inr (b', r)"
  shows "root_of (stringUnionFind b) c r \<and> statics b' = statics b \<and>
           position b' = position b \<and> rerouted (stringUnionFind b) (stringUnionFind b')"
proof -
  from assms obtain s where "find_loop (stringUnionFind b) c [] = Some (r, s)"
    by (auto simp: getStringOfStone_def split: option.splits)
  from find_loop_Some_root[OF this] have r: "root_of (stringUnionFind b) c r" by simp
  from getStringOfStone_root[OF r] assms show ?thesis using r by auto
qed

lemma getStringOfStone_Inl:
  assumes "getStringOfStone b c = Inl e"
  shows "e = (NonTermination, b) \<and> (\<forall>r. \<not> root_of (stringUnionFind b) c r)"
  using assms getStringOfStone_root[of b c] by (auto simp: getStringOfStone_def split: option.splits)


text \<open>
  \<open>rerouted_board\<close>: the two boards differ at most in parent entries that were replaced
  by the root of their cell, which is all that the read-only checks do to a board.
\<close>

definition rerouted_board :: "Board \<Rightarrow> Board \<Rightarrow> bool" where
  "rerouted_board b b' \<longleftrightarrow> statics b' = statics b \<and> position b' = position b \<and>
     rerouted (stringUnionFind b) (stringUnionFind b')"

lemma rerouted_board_refl: "rerouted_board b b"
  by (simp add: rerouted_board_def rerouted_refl)

lemma rerouted_board_trans: "rerouted_board a b \<Longrightarrow> rerouted_board b c \<Longrightarrow> rerouted_board a c"
  by (auto simp: rerouted_board_def intro: rerouted_trans)

lemma getStringOfStone_rerouted: "getStringOfStone b c = Inr (b', r) \<Longrightarrow> rerouted_board b b'"
  by (simp add: rerouted_board_def getStringOfStone_Inr)

lemma is_super_ko_loop_rerouted:
  "is_super_ko_loop b opp fns d = Inr (b', d') \<Longrightarrow> rerouted_board b b'"
proof (induction fns arbitrary: b d)
  case Nil
  then show ?case by (simp add: rerouted_board_refl)
next
  case (Cons fn fns)
  show ?case
  proof (cases "board b fn = opp")
    case True
    then obtain b1 s where g: "getStringOfStone b fn = Inr (b1, s)"
      and l: "is_super_ko_loop b1 opp fns (survey d s (stringLiberties b1 s)) = Inr (b', d')"
      using Cons.prems by (auto split: sum.splits)
    show ?thesis
      using rerouted_board_trans[OF getStringOfStone_rerouted[OF g] Cons.IH[OF l]] .
  next
    case False
    then show ?thesis using Cons.prems Cons.IH by simp
  qed
qed

lemma is_super_ko_rerouted: "is_super_ko b fc color = Inr (b', r) \<Longrightarrow> rerouted_board b b'"
  by (auto simp: is_super_ko_def Let_def split: option.splits sum.splits if_splits
        dest!: is_super_ko_loop_rerouted)

lemma is_suicide_loop_rerouted:
  "is_suicide_loop b color fns lf lo = Inr (b', r) \<Longrightarrow> rerouted_board b b'"
proof (induction fns arbitrary: b lf lo)
  case Nil
  then show ?case by (simp add: rerouted_board_refl)
next
  case (Cons fn fns)
  show ?case
  proof (cases "board b fn = 0")
    case True
    then show ?thesis using Cons.prems by (simp add: rerouted_board_refl)
  next
    case False
    then obtain b1 s lf1 lo1 where g: "getStringOfStone b fn = Inr (b1, s)"
      and l: "is_suicide_loop b1 color fns lf1 lo1 = Inr (b', r)"
      using Cons.prems by (auto split: sum.splits if_splits)
    show ?thesis
      using rerouted_board_trans[OF getStringOfStone_rerouted[OF g] Cons.IH[OF l]] .
  qed
qed

lemma is_suicide_rerouted: "is_suicide b fc color = Inr (b', r) \<Longrightarrow> rerouted_board b b'"
  by (auto simp: is_suicide_def split: option.splits sum.splits prod.splits if_splits
        dest!: is_suicide_loop_rerouted)


section \<open>A push that the super-ko check rejects\<close>

lemma pop_after_push:
  assumes "statics b1 = statics (pushBoard b)" "currentHash b1 = currentHash b"
  shows "pop (b1\<lparr>historyMoveNames := historyMoveNames b1 @ [n]\<rparr>) =
           Inr (b\<lparr>seenHashes := seenHashes b - {currentHash b}\<rparr>)"
proof -
  have t: "trailMoves b1 = trailMoves b @ [currentStatus b]" "historyMoveNames b1 = historyMoveNames b"
    "seenHashes b1 = seenHashes b" "positionHashes b1 = positionHashes b"
    "passHashB b1 = passHashB b" "passHashW b1 = passHashW b"
    using staticsD[OF assms(1)] by (simp_all add: pushBoard_def)
  show ?thesis
    by (simp add: pop_def popBoard_def Let_def t assms(2) currentStatus_def)
qed

lemma push_False:
  assumes "push b m = Inr (b', Some False)"
  shows "\<exists>b1 h. is_super_ko (pushBoard b) m (nextPlayer b) = Inr (b1, True, h) \<and>
           m \<noteq> -1 \<and> \<not> gameOver b \<and>
           b' = b1\<lparr>historyMoveNames := historyMoveNames b1 @ [flat_to_name m]\<rparr>"
proof -
  have ng: "\<not> gameOver b" using assms by (auto simp: push_def split: if_splits)
  then have "play_move (pushBoard b) m = Inr (b', Some False)" using assms by (simp add: push_def)
  from play_move_False[OF this] show ?thesis using ng by simp
qed

lemma rejected_push_fields:
  assumes "push b m = Inr (b', Some False)"
  shows "position b' = position b"
    and "rerouted (stringUnionFind b) (stringUnionFind b')"
    and "seenHashes b' = seenHashes b" "nextPlayer b' = nextPlayer b"
    and "gameOver b' = gameOver b" "lastPlayerHasPassed b' = lastPlayerHasPassed b"
    and "positionHashes b' = positionHashes b" "passHashB b' = passHashB b"
    and "passHashW b' = passHashW b"
    and "trailMoves b' = trailMoves b @ [currentStatus b]"
    and "historyMoveNames b' = historyMoveNames b @ [flat_to_name m]"
    and "pop b' = Inr (b\<lparr>seenHashes := seenHashes b - {currentHash b}\<rparr>)"
proof -
  from push_False[OF assms] obtain b1 h where
    k: "is_super_ko (pushBoard b) m (nextPlayer b) = Inr (b1, True, h)"
    and b': "b' = b1\<lparr>historyMoveNames := historyMoveNames b1 @ [flat_to_name m]\<rparr>" by blast
  from is_super_ko_rerouted[OF k] have r: "statics b1 = statics (pushBoard b)"
    "position b1 = position b" "rerouted (stringUnionFind b) (stringUnionFind b1)"
    by (simp_all add: rerouted_board_def)
  show "position b' = position b" using r(2) by (simp add: b')
  show "rerouted (stringUnionFind b) (stringUnionFind b')" using r(3) by (simp add: b')
  show "seenHashes b' = seenHashes b" "nextPlayer b' = nextPlayer b"
    "gameOver b' = gameOver b" "lastPlayerHasPassed b' = lastPlayerHasPassed b"
    "positionHashes b' = positionHashes b" "passHashB b' = passHashB b"
    "passHashW b' = passHashW b"
    "trailMoves b' = trailMoves b @ [currentStatus b]"
    "historyMoveNames b' = historyMoveNames b @ [flat_to_name m]"
    using staticsD[OF r(1)] by (simp_all add: b' pushBoard_def)
  show "pop b' = Inr (b\<lparr>seenHashes := seenHashes b - {currentHash b}\<rparr>)"
    unfolding b' by (rule pop_after_push[OF r(1) positionD(9)[OF r(2)]])
qed

lemma ko_board_rejects:
  "\<exists>b'. push ko_board 1 = Inr (b', Some False)"
proof -
  have "case push ko_board 1 of Inr (b', r) \<Rightarrow> r = Some False | Inl e \<Rightarrow> False"
    unfolding ko_board_def by code_simp
  then show ?thesis by (auto split: sum.splits)
qed

text \<open>
  C5, as stated, fails: a rejected push has taken the snapshot and has appended the move
  to the list of move names before it returns \<open>False\<close>. In the ko position White's
  recapture on B1 (cell 1) is rejected, and the trail and the list of names have grown.
\<close>

theorem rejected_push_counterexample:
  "(case push ko_board 1 of
      Inr (b', r) \<Rightarrow> r = Some False \<and>
        length (trailMoves b') = length (trailMoves ko_board) + 1 \<and>
        historyMoveNames b' = historyMoveNames ko_board @ [''B1'']
    | Inl e \<Rightarrow> False)"
  unfolding ko_board_def by code_simp

text \<open>
  C5, amended. A push that the super-ko check rejects returns \<open>False\<close> and leaves the
  grid, the hash, the set of empty cells, the liberty and size arrays, the four counts, the
  side to move, both flags, the set of seen hashes and the Zobrist values as they were.
  Parent entries of the union-find may have been replaced by the root of their cell, so
  that every cell keeps its root. The trail has gained the snapshot of the board and the
  list of move names the rejected move; the \<open>pop\<close> that must follow gives back the board
  of before the push, but for its own hash, which is removed from the set of seen hashes.
\<close>

theorem rejected_push_unchanged:
  assumes "push b m = Inr (b', Some False)"
  shows "board b' = board b \<and> currentHash b' = currentHash b \<and> empties b' = empties b \<and>
         stringLiberties b' = stringLiberties b \<and> stringSizes b' = stringSizes b \<and>
         nbWHITE b' = nbWHITE b \<and> nbBLACK b' = nbBLACK b \<and>
         capturedWHITE b' = capturedWHITE b \<and> capturedBLACK b' = capturedBLACK b \<and>
         nextPlayer b' = nextPlayer b \<and> gameOver b' = gameOver b \<and>
         lastPlayerHasPassed b' = lastPlayerHasPassed b \<and> seenHashes b' = seenHashes b \<and>
         positionHashes b' = positionHashes b \<and> passHashB b' = passHashB b \<and>
         passHashW b' = passHashW b \<and>
         rerouted (stringUnionFind b) (stringUnionFind b') \<and>
         (\<forall>c r. root_of (stringUnionFind b') c r \<longleftrightarrow> root_of (stringUnionFind b) c r) \<and>
         trailMoves b' = trailMoves b @ [currentStatus b] \<and>
         historyMoveNames b' = historyMoveNames b @ [flat_to_name m] \<and>
         pop b' = Inr (b\<lparr>seenHashes := seenHashes b - {currentHash b}\<rparr>)"
  using rejected_push_fields[OF assms] positionD[OF rejected_push_fields(1)[OF assms]]
    rerouted_root_of[OF rejected_push_fields(2)[OF assms]]
  by simp

theorem rejected_push_unchanged_witness:
  "\<exists>b'. push ko_board 1 = Inr (b', Some False) \<and>
     board b' = board ko_board \<and> currentHash b' = currentHash ko_board \<and>
     seenHashes b' = seenHashes ko_board \<and>
     trailMoves b' = trailMoves ko_board @ [currentStatus ko_board] \<and>
     pop b' = Inr (ko_board\<lparr>seenHashes := seenHashes ko_board - {currentHash ko_board}\<rparr>)"
proof -
  from ko_board_rejects obtain b' where p: "push ko_board 1 = Inr (b', Some False)" by blast
  from rejected_push_unchanged[OF p] p show ?thesis by blast
qed



section \<open>The grid and the flood fill\<close>

definition cell :: "int \<Rightarrow> bool" where
  "cell c \<longleftrightarrow> 0 \<le> c \<and> c < 81"

lemma neighbors_check:
  "\<forall>c \<in> set [0..80]. distinct (get_neighbors c) \<and> c \<notin> set (get_neighbors c) \<and>
     (\<forall>n \<in> set (get_neighbors c). c \<in> set (get_neighbors n))"
  by code_simp

lemma cell_upto: "cell c \<longleftrightarrow> c \<in> set [0..80]"
  by (auto simp: cell_def)

lemma neighbors_cell: "n \<in> set (get_neighbors c) \<Longrightarrow> cell n"
  using get_neighbors_range by (simp add: cell_def)

lemma neighbors_distinct: "cell c \<Longrightarrow> distinct (get_neighbors c)"
  using neighbors_check by (simp add: cell_upto)

lemma neighbors_irrefl: "cell c \<Longrightarrow> c \<notin> set (get_neighbors c)"
  using neighbors_check by (simp add: cell_upto)

lemma neighbors_sym: "cell c \<Longrightarrow> n \<in> set (get_neighbors c) \<Longrightarrow> c \<in> set (get_neighbors n)"
  using neighbors_check by (simp add: cell_upto)

text \<open>
  The flood fill from a cell returns, without repetition, the cells that are reached from it
  by steps to a neighbour of the colour of the cell.
\<close>

definition same_adj :: "(int \<Rightarrow> int) \<Rightarrow> int \<Rightarrow> (int \<times> int) set" where
  "same_adj brd color = {(x, y). y \<in> set (get_neighbors x) \<and> brd y = color}"

lemma breadthSearch_loop_spec:
  assumes "distinct string"
    and "set string \<union> set frontier \<subseteq> (same_adj brd color)\<^sup>* `` {start}"
    and "\<forall>x \<in> set string. x \<in> set frontier \<or> (\<forall>y. (x, y) \<in> same_adj brd color \<longrightarrow> y \<in> set string \<union> set frontier)"
    and "start \<in> set string"
  shows "distinct (breadthSearch_loop brd color string frontier) \<and>
         set (breadthSearch_loop brd color string frontier) = (same_adj brd color)\<^sup>* `` {start}"
  using assms
proof (induction brd color string frontier rule: breadthSearch_loop.induct)
  case (1 brd color string)
  have "y \<in> set string" if "(start, y) \<in> (same_adj brd color)\<^sup>*" for y
    using that
  proof (induction rule: rtrancl_induct)
    case base
    then show ?case using 1(4) .
  next
    case (step y z)
    then show ?case using 1(3) by auto
  qed
  then show ?case using 1(1,2) by (auto simp: breadthSearch_loop.simps)
next
  case (2 brd color string current_fc frontier)
  define string1 where "string1 = (if current_fc \<in> set string then string else string @ [current_fc])"
  define new where "new = filter (\<lambda>fn. brd fn = color \<and> fn \<notin> set string1) (get_neighbors current_fc)"
  have s1: "set string1 = insert current_fc (set string)" by (auto simp: string1_def)
  have d: "distinct string1" using 2(2) by (simp add: string1_def)
  have cur: "(start, current_fc) \<in> (same_adj brd color)\<^sup>*" using 2(3) by auto
  have "set new \<subseteq> (same_adj brd color)\<^sup>* `` {start}"
  proof
    fix y assume "y \<in> set new"
    then have "(current_fc, y) \<in> same_adj brd color" by (auto simp: new_def same_adj_def)
    with cur show "y \<in> (same_adj brd color)\<^sup>* `` {start}" by (auto intro: rtrancl_into_rtrancl)
  qed
  then have p2: "set string1 \<union> set (rev new @ frontier) \<subseteq> (same_adj brd color)\<^sup>* `` {start}"
    using 2(3) s1 by auto
  have p3: "\<forall>x \<in> set string1. x \<in> set (rev new @ frontier) \<or>
      (\<forall>y. (x, y) \<in> same_adj brd color \<longrightarrow> y \<in> set string1 \<union> set (rev new @ frontier))"
  proof
    fix x assume x: "x \<in> set string1"
    show "x \<in> set (rev new @ frontier) \<or>
      (\<forall>y. (x, y) \<in> same_adj brd color \<longrightarrow> y \<in> set string1 \<union> set (rev new @ frontier))"
    proof (cases "x = current_fc")
      case True
      then show ?thesis by (auto simp: new_def same_adj_def)
    next
      case False
      then have "x \<in> set string" using x s1 by auto
      with 2(4) False s1 show ?thesis by auto
    qed
  qed
  have p4: "start \<in> set string1" using 2(5) s1 by auto
  have "breadthSearch_loop brd color string (current_fc # frontier)
        = breadthSearch_loop brd color string1 (rev new @ frontier)"
    by (simp add: breadthSearch_loop.simps string1_def new_def Let_def)
  moreover note "2.IH"[OF string1_def new_def d p2 p3 p4]
  ultimately show ?case by simp
qed

lemma breadthSearchString_spec:
  "distinct (breadthSearchString b fc) \<and>
   set (breadthSearchString b fc) = (same_adj (board b) (board b fc))\<^sup>* `` {fc}"
  unfolding breadthSearchString_def
  by (rule breadthSearch_loop_spec) auto


section \<open>Consistent boards\<close>

text \<open>
  The string of a root is the set of the stones that lead to it in the union-find. The
  liberty count that the code maintains for a string is the number of pairs of a stone of
  the string and an empty neighbour of that stone (\<open>pairs\<close>): an empty cell that touches
  two stones of the string is counted twice.

  \<open>wf_parents\<close>: cells hold 0, 1 or 2; an empty cell has no parent; from a stone the parent
  entries lead to a root, through stones of its colour; and every stone is connected to its
  root by stones of its colour. \<open>linked brd uf X\<close>: neighbouring stones of one colour have
  the same root, but for the pairs in \<open>X\<close> (the neighbours that a placement has not reached
  yet). \<open>counted brd uf libs R\<close>: the liberty count of every root is the number of its
  pairs, plus one for each stone of the string in the list \<open>R\<close> (the decrements that a
  placement has still to make). \<open>consistent\<close>: all of them, with no pair and no
  decrement left, the set of empty cells is the set of the cells that hold 0, and the side
  to move is a colour.
\<close>

definition string_of :: "(int \<Rightarrow> int) \<Rightarrow> (int \<Rightarrow> int) \<Rightarrow> int \<Rightarrow> int set" where
  "string_of brd uf r = {c. cell c \<and> brd c \<noteq> 0 \<and> root_of uf c r}"

definition liberties_of :: "(int \<Rightarrow> int) \<Rightarrow> int \<Rightarrow> int" where
  "liberties_of brd c = int (length (filter (\<lambda>n. brd n = 0) (get_neighbors c)))"

definition pairs :: "(int \<Rightarrow> int) \<Rightarrow> (int \<Rightarrow> int) \<Rightarrow> int \<Rightarrow> int" where
  "pairs brd uf r = (\<Sum>c \<in> string_of brd uf r. liberties_of brd c)"

definition pending :: "(int \<Rightarrow> int) \<Rightarrow> (int \<Rightarrow> int) \<Rightarrow> int list \<Rightarrow> int \<Rightarrow> int" where
  "pending brd uf R r = int (length (filter (\<lambda>n. brd n \<noteq> 0 \<and> root_of uf n r) R))"

definition adj :: "(int \<Rightarrow> int) \<Rightarrow> (int \<times> int) set" where
  "adj brd = {(x, y). cell x \<and> y \<in> set (get_neighbors x) \<and> brd x \<noteq> 0 \<and> brd y = brd x}"

definition wf_parents :: "(int \<Rightarrow> int) \<Rightarrow> (int \<Rightarrow> int) \<Rightarrow> bool" where
  "wf_parents brd uf \<longleftrightarrow>
     (\<forall>c. cell c \<longrightarrow> brd c = 0 \<or> brd c = 1 \<or> brd c = 2) \<and>
     (\<forall>c. cell c \<and> brd c = 0 \<longrightarrow> uf c = -1) \<and>
     (\<forall>c. cell c \<and> brd c \<noteq> 0 \<longrightarrow>
        (\<exists>r. root_of uf c r) \<and> (uf c \<noteq> -1 \<longrightarrow> cell (uf c) \<and> brd (uf c) = brd c)) \<and>
     (\<forall>c r. cell c \<and> brd c \<noteq> 0 \<and> root_of uf c r \<longrightarrow> (r, c) \<in> (adj brd)\<^sup>*)"

definition linked :: "(int \<Rightarrow> int) \<Rightarrow> (int \<Rightarrow> int) \<Rightarrow> (int \<times> int) set \<Rightarrow> bool" where
  "linked brd uf X \<longleftrightarrow>
     (\<forall>x y r. (x, y) \<in> adj brd \<and> (x, y) \<notin> X \<and> root_of uf x r \<longrightarrow> root_of uf y r)"

definition counted :: "(int \<Rightarrow> int) \<Rightarrow> (int \<Rightarrow> int) \<Rightarrow> (int \<Rightarrow> int) \<Rightarrow> int list \<Rightarrow> bool" where
  "counted brd uf libs R \<longleftrightarrow>
     (\<forall>r. cell r \<and> brd r \<noteq> 0 \<and> uf r = -1 \<longrightarrow> libs r = pairs brd uf r + pending brd uf R r)"

definition wf_strings :: "(int \<Rightarrow> int) \<Rightarrow> (int \<Rightarrow> int) \<Rightarrow> bool" where
  "wf_strings brd uf \<longleftrightarrow> wf_parents brd uf \<and> linked brd uf {}"

definition consistent :: "Board \<Rightarrow> bool" where
  "consistent b \<longleftrightarrow>
     wf_strings (board b) (stringUnionFind b) \<and>
     counted (board b) (stringUnionFind b) (stringLiberties b) [] \<and>
     empties b = {c. cell c \<and> board b c = 0} \<and>
     (nextPlayer b = 1 \<or> nextPlayer b = 2)"

lemma wf_parents_colors: "wf_parents brd uf \<Longrightarrow> cell c \<Longrightarrow> brd c = 0 \<or> brd c = 1 \<or> brd c = 2"
  by (simp add: wf_parents_def)

lemma wf_parents_empty: "wf_parents brd uf \<Longrightarrow> cell c \<Longrightarrow> brd c = 0 \<Longrightarrow> uf c = -1"
  by (simp add: wf_parents_def)

lemma wf_parents_has_root: "wf_parents brd uf \<Longrightarrow> cell c \<Longrightarrow> brd c \<noteq> 0 \<Longrightarrow> \<exists>r. root_of uf c r"
  by (simp add: wf_parents_def)

lemma wf_parents_parent:
  "wf_parents brd uf \<Longrightarrow> cell c \<Longrightarrow> brd c \<noteq> 0 \<Longrightarrow> uf c \<noteq> -1 \<Longrightarrow> cell (uf c) \<and> brd (uf c) = brd c"
  by (simp add: wf_parents_def)

lemma wf_parents_connected:
  "wf_parents brd uf \<Longrightarrow> cell c \<Longrightarrow> brd c \<noteq> 0 \<Longrightarrow> root_of uf c r \<Longrightarrow> (r, c) \<in> (adj brd)\<^sup>*"
  by (simp add: wf_parents_def)

lemma linkedD: "linked brd uf X \<Longrightarrow> (x, y) \<in> adj brd \<Longrightarrow> (x, y) \<notin> X \<Longrightarrow> root_of uf x r \<Longrightarrow> root_of uf y r"
  unfolding linked_def by meson

lemma countedD:
  "counted brd uf libs R \<Longrightarrow> cell r \<Longrightarrow> brd r \<noteq> 0 \<Longrightarrow> uf r = -1 \<Longrightarrow>
     libs r = pairs brd uf r + pending brd uf R r"
  by (simp add: counted_def)

lemma pending_Nil [simp]: "pending brd uf [] r = 0"
  by (simp add: pending_def)

lemma wf_strings_adj: "wf_strings brd uf \<Longrightarrow> (x, y) \<in> adj brd \<Longrightarrow> root_of uf x r \<Longrightarrow> root_of uf y r"
  using linkedD[of brd uf "{}" x y r] by (simp add: wf_strings_def)

lemma wf_strings_parents: "wf_strings brd uf \<Longrightarrow> wf_parents brd uf"
  by (simp add: wf_strings_def)

lemma adj_cell: "(x, y) \<in> adj brd \<Longrightarrow> cell x \<and> cell y \<and> brd x \<noteq> 0 \<and> brd y = brd x"
  by (auto simp: adj_def neighbors_cell)

lemma adj_sym:
  assumes "(x, y) \<in> adj brd"
  shows "(y, x) \<in> adj brd"
proof -
  from assms have a: "cell x" "y \<in> set (get_neighbors x)" "brd x \<noteq> 0" "brd y = brd x"
    by (auto simp: adj_def)
  have "cell y" using a(2) by (rule neighbors_cell)
  moreover have "x \<in> set (get_neighbors y)" using a(1,2) by (rule neighbors_sym)
  ultimately show ?thesis using a(3,4) by (simp add: adj_def)
qed

lemma adj_rtrancl_sym: "(x, y) \<in> (adj brd)\<^sup>* \<Longrightarrow> (y, x) \<in> (adj brd)\<^sup>*"
proof (induction rule: rtrancl_induct)
  case base
  show ?case by simp
next
  case (step y z)
  from adj_sym[OF step.hyps(2)] step.IH show ?case by (rule converse_rtrancl_into_rtrancl)
qed

lemma adj_rtrancl_color: "(x, y) \<in> (adj brd)\<^sup>* \<Longrightarrow> brd y = brd x \<and> (cell x \<longrightarrow> cell y)"
proof (induction rule: rtrancl_induct)
  case base
  show ?case by simp
next
  case (step y z)
  from adj_cell[OF step.hyps(2)] step.IH show ?case by simp
qed

lemma wf_parents_root:
  assumes "wf_parents brd uf" and "root_of uf c r" and "cell c" "brd c \<noteq> 0"
  shows "cell r \<and> brd r = brd c"
  using assms(2,3,4)
proof (induction rule: root_of.induct)
  case (root c)
  then show ?case by simp
next
  case (step c r)
  from assms(1) step.prems step.hyps(1) have "cell (uf c) \<and> brd (uf c) = brd c"
    by (simp add: wf_parents_parent)
  with step show ?case by simp
qed

lemma wf_strings_closed:
  assumes "wf_strings brd uf" and "(x, y) \<in> (adj brd)\<^sup>*" and "root_of uf x r"
  shows "root_of uf y r"
  using assms(2)
proof (induction rule: rtrancl_induct)
  case base
  then show ?case using assms(3) .
next
  case (step y z)
  then show ?case using assms(1) wf_strings_adj by blast
qed

lemma adj_same_adj:
  assumes "(r, y) \<in> (adj brd)\<^sup>*"
  shows "(r, y) \<in> (same_adj brd (brd r))\<^sup>*"
  using assms
proof (induction rule: rtrancl_induct)
  case base
  then show ?case by simp
next
  case (step y z)
  have "brd y = brd r" using adj_rtrancl_color[OF step.hyps(1)] by simp
  then have "(y, z) \<in> same_adj brd (brd r)" using step.hyps(2) by (auto simp: adj_def same_adj_def)
  then show ?case using step.IH by (auto intro: rtrancl_into_rtrancl)
qed

lemma same_adj_adj:
  assumes "(r, y) \<in> (same_adj brd (brd r))\<^sup>*" and "cell r" "brd r \<noteq> 0"
  shows "(r, y) \<in> (adj brd)\<^sup>*"
  using assms(1)
proof (induction rule: rtrancl_induct)
  case base
  then show ?case by simp
next
  case (step y z)
  have "brd y = brd r" "cell y" using adj_rtrancl_color[OF step.IH] assms(2) by simp_all
  then have "(y, z) \<in> adj brd" using step.hyps(2) assms(3) by (auto simp: adj_def same_adj_def)
  then show ?case using step.IH by (auto intro: rtrancl_into_rtrancl)
qed

text \<open>On well-formed strings the flood fill from a root returns the cells of its string.\<close>

lemma flood_fill_string:
  assumes "wf_strings (board b) (stringUnionFind b)" and "cell r" "board b r \<noteq> 0"
    and "stringUnionFind b r = -1"
  shows "set (breadthSearchString b r) = string_of (board b) (stringUnionFind b) r"
    and "distinct (breadthSearchString b r)"
proof -
  have rr: "root_of (stringUnionFind b) r r" using assms(4) by (rule root_of.root)
  have "(same_adj (board b) (board b r))\<^sup>* `` {r} = string_of (board b) (stringUnionFind b) r"
  proof (intro set_eqI iffI)
    fix y assume "y \<in> (same_adj (board b) (board b r))\<^sup>* `` {r}"
    then have a: "(r, y) \<in> (adj (board b))\<^sup>*" using same_adj_adj assms(2,3) by auto
    from adj_rtrancl_color[OF a] wf_strings_closed[OF assms(1) a rr] assms(2,3)
    show "y \<in> string_of (board b) (stringUnionFind b) r" by (simp add: string_of_def)
  next
    fix y assume "y \<in> string_of (board b) (stringUnionFind b) r"
    then have "(r, y) \<in> (adj (board b))\<^sup>*"
      using wf_strings_parents[OF assms(1)] by (simp add: string_of_def wf_parents_connected)
    from adj_same_adj[OF this] show "y \<in> (same_adj (board b) (board b r))\<^sup>* `` {r}" by simp
  qed
  then show "set (breadthSearchString b r) = string_of (board b) (stringUnionFind b) r"
    using breadthSearchString_spec by simp
  show "distinct (breadthSearchString b r)" using breadthSearchString_spec by simp
qed

section \<open>The surveys of the neighbouring strings\<close>

lemma rerouted_boardD:
  assumes "rerouted_board b b'"
  shows "board b' = board b" "stringLiberties b' = stringLiberties b"
    "root_of (stringUnionFind b') = root_of (stringUnionFind b)"
    "seenHashes b' = seenHashes b" "currentHash b' = currentHash b"
    "positionHashes b' = positionHashes b" "empties b' = empties b"
    "nextPlayer b' = nextPlayer b"
proof -
  from assms have s: "statics b' = statics b" and p: "position b' = position b"
    and r: "rerouted (stringUnionFind b) (stringUnionFind b')" by (simp_all add: rerouted_board_def)
  show "board b' = board b" "stringLiberties b' = stringLiberties b" "currentHash b' = currentHash b"
    "empties b' = empties b"
    using positionD[OF p] by simp_all
  show "seenHashes b' = seenHashes b" "positionHashes b' = positionHashes b" "nextPlayer b' = nextPlayer b"
    using staticsD[OF s] by simp_all
  show "root_of (stringUnionFind b') = root_of (stringUnionFind b)"
    using rerouted_root_of[OF r] by (intro ext) simp
qed

definition surveys :: "(int \<Rightarrow> int) \<Rightarrow> int list \<Rightarrow> dict \<Rightarrow> dict" where
  "surveys libs rs d = fold (\<lambda>s d. survey d s (libs s)) rs d"

lemma surveys_simps [simp]:
  "surveys libs [] d = d"
  "surveys libs (s # rs) d = surveys libs rs (survey d s (libs s))"
  by (simp_all add: surveys_def)

lemma is_super_ko_loop_spec:
  assumes "\<forall>n \<in> set fns. board b n = opp \<longrightarrow> (\<exists>r. root_of (stringUnionFind b) n r)"
  shows "\<exists>b' rs. is_super_ko_loop b opp fns d = Inr (b', surveys (stringLiberties b) rs d) \<and>
           rerouted_board b b' \<and>
           list_all2 (root_of (stringUnionFind b)) (filter (\<lambda>n. board b n = opp) fns) rs"
  using assms
proof (induction fns arbitrary: b d)
  case Nil
  then show ?case by (auto simp: rerouted_board_refl)
next
  case (Cons fn fns)
  show ?case
  proof (cases "board b fn = opp")
    case True
    then obtain s where s: "root_of (stringUnionFind b) fn s" using Cons.prems by auto
    from getStringOfStone_root[OF s] obtain b1 where g: "getStringOfStone b fn = Inr (b1, s)" by blast
    note rb = getStringOfStone_rerouted[OF g]
    note e = rerouted_boardD[OF rb]
    have "\<forall>n \<in> set fns. board b1 n = opp \<longrightarrow> (\<exists>r. root_of (stringUnionFind b1) n r)"
      using Cons.prems e by simp
    from Cons.IH[OF this, of "survey d s (stringLiberties b1 s)"] obtain b' rs where
      l: "is_super_ko_loop b1 opp fns (survey d s (stringLiberties b1 s))
            = Inr (b', surveys (stringLiberties b1) rs (survey d s (stringLiberties b1 s)))"
      and rb': "rerouted_board b1 b'"
      and la: "list_all2 (root_of (stringUnionFind b1)) (filter (\<lambda>n. board b1 n = opp) fns) rs"
      by blast
    have "is_super_ko_loop b opp (fn # fns) d = Inr (b', surveys (stringLiberties b) (s # rs) d)"
      using True g l e by simp
    moreover have "rerouted_board b b'" using rb rb' by (rule rerouted_board_trans)
    moreover have "list_all2 (root_of (stringUnionFind b)) (filter (\<lambda>n. board b n = opp) (fn # fns)) (s # rs)"
      using True s la e by simp
    ultimately show ?thesis by blast
  next
    case False
    from Cons.IH[of b d] Cons.prems obtain b' rs where
      "is_super_ko_loop b opp fns d = Inr (b', surveys (stringLiberties b) rs d)"
      "rerouted_board b b'"
      "list_all2 (root_of (stringUnionFind b)) (filter (\<lambda>n. board b n = opp) fns) rs"
      by auto
    then show ?thesis using False by auto
  qed
qed

text \<open>The dictionary of a survey: one entry for each string met, with the liberties of the
  string minus the number of times it was met.\<close>

lemma survey_map_fst:
  "map fst (map (\<lambda>(k, v). if k = s then (k, v - 1) else (k, v)) d) = map fst d"
  by (induction d) auto

lemma survey_keys: "fst ` set (survey d s l) = insert s (fst ` set d)"
proof (cases "s \<in> fst ` set d")
  case True
  have "fst ` set (map (\<lambda>(k, v). if k = s then (k, v - 1) else (k, v)) d)
      = set (map fst (map (\<lambda>(k, v). if k = s then (k, v - 1) else (k, v)) d))"
    by (simp only: set_map)
  also have "\<dots> = fst ` set d" by (simp only: survey_map_fst set_map)
  finally show ?thesis using True by (simp add: survey_def insert_absorb)
next
  case False
  then show ?thesis by (simp add: survey_def)
qed

lemma survey_distinct:
  assumes "distinct (map fst d)"
  shows "distinct (map fst (survey d s l))"
proof (cases "s \<in> fst ` set d")
  case True
  then have "survey d s l = map (\<lambda>(k, v). if k = s then (k, v - 1) else (k, v)) d"
    by (simp add: survey_def)
  then show ?thesis using assms by (simp only: survey_map_fst)
next
  case False
  then show ?thesis using assms by (simp add: survey_def)
qed

lemma survey_map_of:
  "map_of (survey d s l) k =
     (if k = s then (case map_of d s of None \<Rightarrow> Some (l - 1) | Some v \<Rightarrow> Some (v - 1))
      else map_of d k)"
proof -
  have m: "map_of (map (\<lambda>(k, v). if k = s then (k, v - 1) else (k, v)) d) k
        = (if k = s then map_option (\<lambda>v. v - 1) (map_of d s) else map_of d k)"
    by (induction d) auto
  show ?thesis
  proof (cases "s \<in> fst ` set d")
    case True
    then obtain v where "map_of d s = Some v" by (metis domD dom_map_of_conv_image_fst)
    then show ?thesis using True m by (simp add: survey_def)
  next
    case False
    then have n: "map_of d s = None" by (simp add: map_of_eq_None_iff)
    have "map_of (d @ [(s, l - 1)]) k = (case map_of d k of None \<Rightarrow> (if k = s then Some (l - 1) else None) | Some v \<Rightarrow> Some v)"
      by (simp add: map_add_def split: option.splits)
    then show ?thesis using False n by (simp add: survey_def split: option.splits)
  qed
qed

lemma surveys_keys: "fst ` set (surveys libs rs d) = set rs \<union> fst ` set d"
  by (induction rs arbitrary: d) (auto simp: survey_keys)

lemma surveys_distinct: "distinct (map fst d) \<Longrightarrow> distinct (map fst (surveys libs rs d))"
  by (induction rs arbitrary: d) (auto simp: survey_distinct)

lemma surveys_map_of:
  "map_of (surveys libs rs d) k =
     (case map_of d k of
        Some v \<Rightarrow> Some (v - int (count_list rs k))
      | None \<Rightarrow> if k \<in> set rs then Some (libs k - int (count_list rs k)) else None)"
proof (induction rs arbitrary: d)
  case Nil
  then show ?case by (simp split: option.splits)
next
  case (Cons s rs)
  show ?case
    by (simp add: Cons.IH survey_map_of split: option.splits)
qed


section \<open>Counting liberties\<close>

lemma finite_cells: "finite {c. cell c}"
proof -
  have "{c. cell c} = {0..<81}" by (auto simp: cell_def)
  then show ?thesis by simp
qed

lemma finite_string_of: "finite (string_of brd uf r)"
  by (rule finite_subset[OF _ finite_cells]) (auto simp: string_of_def)

lemma filter_length_without:
  "distinct ns \<Longrightarrow> P x \<Longrightarrow>
     int (length (filter (\<lambda>n. P n \<and> n \<noteq> x) ns))
       = int (length (filter P ns)) - (if x \<in> set ns then 1 else 0)"
proof (induction ns)
  case Nil
  then show ?case by simp
next
  case (Cons a ns)
  then show ?case by (cases "a = x") auto
qed

lemma filter_length_with:
  "distinct ns \<Longrightarrow> \<not> P x \<Longrightarrow>
     int (length (filter (\<lambda>n. P n \<or> n = x) ns))
       = int (length (filter P ns)) + (if x \<in> set ns then 1 else 0)"
proof (induction ns)
  case Nil
  then show ?case by simp
next
  case (Cons a ns)
  then show ?case by (cases "a = x") auto
qed

lemma liberties_of_fill:
  assumes "cell c" "brd fc = 0" "col \<noteq> 0"
  shows "liberties_of (brd(fc := col)) c
       = liberties_of brd c - (if fc \<in> set (get_neighbors c) then 1 else 0)"
proof -
  have "filter (\<lambda>n. (brd(fc := col)) n = 0) (get_neighbors c)
      = filter (\<lambda>n. brd n = 0 \<and> n \<noteq> fc) (get_neighbors c)"
    using assms(3) by (intro filter_cong) auto
  then show ?thesis
    unfolding liberties_of_def
    using filter_length_without[OF neighbors_distinct[OF assms(1)], of "\<lambda>n. brd n = 0" fc] assms(2)
    by simp
qed

lemma liberties_of_clear:
  assumes "cell c" "brd s \<noteq> 0"
  shows "liberties_of (brd(s := 0)) c
       = liberties_of brd c + (if s \<in> set (get_neighbors c) then 1 else 0)"
proof -
  have "filter (\<lambda>n. (brd(s := 0)) n = 0) (get_neighbors c)
      = filter (\<lambda>n. brd n = 0 \<or> n = s) (get_neighbors c)"
    by (intro filter_cong) auto
  then show ?thesis
    unfolding liberties_of_def
    using filter_length_with[OF neighbors_distinct[OF assms(1)], of "\<lambda>n. brd n = 0" s] assms(2)
    by simp
qed

lemma touching_count:
  assumes "cell fc" "finite S" "S \<subseteq> {c. cell c}"
  shows "(\<Sum>c \<in> S. if fc \<in> set (get_neighbors c) then 1 else 0)
       = int (length (filter (\<lambda>n. n \<in> S) (get_neighbors fc)))"
proof -
  have e: "{c \<in> S. fc \<in> set (get_neighbors c)} = set (filter (\<lambda>n. n \<in> S) (get_neighbors fc))"
  proof (intro set_eqI iffI)
    fix c assume "c \<in> {c \<in> S. fc \<in> set (get_neighbors c)}"
    then have "c \<in> S" "fc \<in> set (get_neighbors c)" by simp_all
    moreover from this assms(3) have "cell c" by auto
    ultimately show "c \<in> set (filter (\<lambda>n. n \<in> S) (get_neighbors fc))"
      using neighbors_sym[of c fc] by simp
  next
    fix c assume "c \<in> set (filter (\<lambda>n. n \<in> S) (get_neighbors fc))"
    then show "c \<in> {c \<in> S. fc \<in> set (get_neighbors c)}"
      using neighbors_sym[OF assms(1), of c] by simp
  qed
  have "(\<Sum>c \<in> S. if fc \<in> set (get_neighbors c) then 1 else 0)
      = int (card {c \<in> S. fc \<in> set (get_neighbors c)})"
    using assms(2) by (simp add: sum.If_cases Int_def)
  also have "\<dots> = int (card (set (filter (\<lambda>n. n \<in> S) (get_neighbors fc))))"
    by (simp only: e)
  also have "\<dots> = int (length (filter (\<lambda>n. n \<in> S) (get_neighbors fc)))"
    by (rule arg_cong[where f=int], rule distinct_card, rule distinct_filter,
        rule neighbors_distinct[OF assms(1)])
  finally show ?thesis .
qed


section \<open>Placing a stone: the invariant of the loop\<close>

definition exc :: "int \<Rightarrow> int list \<Rightarrow> (int \<times> int) set" where
  "exc fc R = {(x, y). (x = fc \<and> y \<in> set R) \<or> (y = fc \<and> x \<in> set R)}"

lemma exc_Nil [simp]: "exc fc [] = {}"
  by (simp add: exc_def)

lemma rerouted_root_of_eq: "rerouted uf uf' \<Longrightarrow> root_of uf' = root_of uf"
  using rerouted_root_of by (intro ext) simp

lemma rerouted_string_of: "rerouted uf uf' \<Longrightarrow> string_of brd uf' = string_of brd uf"
  by (intro ext) (simp add: string_of_def rerouted_root_of_eq)

lemma rerouted_pairs: "rerouted uf uf' \<Longrightarrow> pairs brd uf' = pairs brd uf"
  by (intro ext) (simp add: pairs_def rerouted_string_of)

lemma rerouted_pending: "rerouted uf uf' \<Longrightarrow> pending brd uf' = pending brd uf"
  by (intro ext) (simp add: pending_def rerouted_root_of_eq)

lemma wf_parentsI:
  assumes "\<And>c. cell c \<Longrightarrow> brd c = 0 \<or> brd c = 1 \<or> brd c = 2"
    and "\<And>c. cell c \<Longrightarrow> brd c = 0 \<Longrightarrow> uf c = -1"
    and "\<And>c. cell c \<Longrightarrow> brd c \<noteq> 0 \<Longrightarrow> \<exists>r. root_of uf c r"
    and "\<And>c. cell c \<Longrightarrow> brd c \<noteq> 0 \<Longrightarrow> uf c \<noteq> -1 \<Longrightarrow> cell (uf c) \<and> brd (uf c) = brd c"
    and "\<And>c r. cell c \<Longrightarrow> brd c \<noteq> 0 \<Longrightarrow> root_of uf c r \<Longrightarrow> (r, c) \<in> (adj brd)\<^sup>*"
  shows "wf_parents brd uf"
  unfolding wf_parents_def using assms by simp

lemma linkedI:
  assumes "\<And>x y r. (x, y) \<in> adj brd \<Longrightarrow> (x, y) \<notin> X \<Longrightarrow> root_of uf x r \<Longrightarrow> root_of uf y r"
  shows "linked brd uf X"
  unfolding linked_def using assms by blast

lemma countedI:
  assumes "\<And>r. cell r \<Longrightarrow> brd r \<noteq> 0 \<Longrightarrow> uf r = -1 \<Longrightarrow> libs r = pairs brd uf r + pending brd uf R r"
  shows "counted brd uf libs R"
  unfolding counted_def using assms by simp

lemma rerouted_wf_parents:
  assumes r: "rerouted uf uf'" and w: "wf_parents brd uf"
  shows "wf_parents brd uf'"
proof (rule wf_parentsI)
  fix c assume "cell c"
  then show "brd c = 0 \<or> brd c = 1 \<or> brd c = 2" using w by (rule wf_parents_colors[rotated])
next
  fix c assume "cell c" "brd c = 0"
  then have "uf c = -1" using w by (simp add: wf_parents_empty)
  then show "uf' c = -1" using r by (rule rerouted_keeps_root[rotated])
next
  fix c assume c: "cell c" "brd c \<noteq> 0"
  then show "\<exists>r. root_of uf' c r" using wf_parents_has_root[OF w] by (simp add: rerouted_root_of_eq[OF r])
next
  fix c assume c: "cell c" "brd c \<noteq> 0" and n: "uf' c \<noteq> -1"
  from reroutedD[OF r, of c] consider "uf' c = uf c" | "uf c \<noteq> -1" "root_of uf c (uf' c)" by auto
  then show "cell (uf' c) \<and> brd (uf' c) = brd c"
  proof cases
    case 1
    then show ?thesis using wf_parents_parent[OF w, of c] c n by simp
  next
    case 2
    then show ?thesis using wf_parents_root[OF w 2(2)] c by simp
  qed
next
  fix c ra assume "cell c" "brd c \<noteq> 0" "root_of uf' c ra"
  then show "(ra, c) \<in> (adj brd)\<^sup>*"
    using wf_parents_connected[OF w, of c ra] by (simp add: rerouted_root_of_eq[OF r])
qed

lemma rerouted_linked: "rerouted uf uf' \<Longrightarrow> linked brd uf X \<Longrightarrow> linked brd uf' X"
  by (simp add: linked_def rerouted_root_of_eq)

lemma rerouted_counted:
  assumes r: "rerouted uf uf'" and w: "wf_parents brd uf" and c: "counted brd uf libs R"
  shows "counted brd uf' libs R"
proof (rule countedI)
  fix ra assume a: "cell ra" "brd ra \<noteq> 0" "uf' ra = -1"
  then have "root_of uf' ra ra" by (simp add: root_of.root)
  then have "root_of uf ra ra" by (simp add: rerouted_root_of_eq[OF r])
  then have "uf ra = -1" by (rule root_of_is_root)
  then show "libs ra = pairs brd uf' ra + pending brd uf' R ra"
    using countedD[OF c, of ra] a by (simp add: rerouted_pairs[OF r] rerouted_pending[OF r])
qed

end
